theory Spec2Isabelle
  imports Main "HOL-Library.Word" "HOL-Library.AList"
begin

unbundle bit_operations_syntax

section \<open>The multi-cluster controller of pkg/controller/multicluster.go\<close>

text \<open>
  The Go code keeps a map from cluster name to the send end of a buffered channel and
  runs one loop that selects among three sources: the store's watch, a ticker and the
  context's cancellation. The model makes three things explicit that Go keeps implicit:
  \<^item> the channels live in a heap (a list; the address of a channel is its index), so
    that closing a channel and deleting its map entry are different operations;
  \<^item> everything the loop does to the outside (log lines, file system calls, channel
    operations, goroutines started) is appended to a list of effects;
  \<^item> a run-time panic (close of a closed or nil channel, send on a closed channel) is
    a result \<open>Inl\<close> of the step.
\<close>

subsection \<open>Channels\<close>

definition clusterControllerNotificationBuffer :: nat where
  "clusterControllerNotificationBuffer = 10"

text \<open>A \<^verbatim>\<open>chan struct{}\<close>: its elements carry nothing, so the buffer is a count.\<close>

record chan =
  buffered :: nat
  capacity :: nat
  closed :: bool

datatype panic = close_of_nil_channel | close_of_closed_channel | send_on_closed_channel

subsection \<open>Clusters, workers, log lines and effects\<close>

text \<open>
  \<^verbatim>\<open>store.Cluster\<close> is declared outside this file; the controller reads its field
  \<^verbatim>\<open>Spec\<close> only and never looks inside it.
\<close>

record Cluster =
  Spec :: string

text \<open>
  The worker built by the factory. Its fields \<^verbatim>\<open>log\<close>, \<^verbatim>\<open>clusterStore\<close> and
  \<^verbatim>\<open>newProvisioner\<close> are copies of the controller's own handles and are left out.
  A file and an executor are handles (numbers).
\<close>

record clusterController =
  clusterName :: string
  clusterSpec :: string
  clusterAssetsDir :: string
  logFile :: nat
  executor :: nat

text \<open>One constructor for each \<^verbatim>\<open>Println\<close>/\<^verbatim>\<open>Printf\<close> of the file, with its arguments.\<close>

datatype logline =
    Started
  | UnmarshalError string string
  | CreateError string string
  | BufferFull string
  | TickLine
  | GetAllError string
  | Stopping

datatype effect =
    Log logline
  | MkdirAll string "32 word"
  | Create string
  | NewExecutor string string nat
  | Make nat
  | Send nat bool
  | Close nat
  | Go clusterController nat

text \<open>
  What the outside answers while one event is handled: the operating system, the
  injected executor creator, the store's snapshot, the JSON decoder on a non-empty
  input, and the order in which each of the four \<^verbatim>\<open>range\<close> statements visits its map
  (Go leaves that order open: the keys are visited by increasing rank, and every order
  of distinct keys is the order of some rank).
\<close>

record world =
  os_MkdirAll :: "string \<Rightarrow> 32 word \<Rightarrow> string option"
  os_Create :: "string \<Rightarrow> string + nat"
  newExecutor :: "string \<Rightarrow> string \<Rightarrow> nat \<Rightarrow> string + nat"
  json_decode :: "string \<Rightarrow> string + Cluster"
  GetAll :: "string + (string \<times> Cluster) list"
  rangeRank :: "nat \<Rightarrow> string \<Rightarrow> nat"

subsection \<open>The controller's state\<close>

text \<open>
  Of the struct \<^verbatim>\<open>multiClusterController\<close> the state keeps \<open>assetsDir\<close> and the map
  \<open>clusterControllers\<close> (an association list read with \<open>map_of\<close>, written with
  \<open>AList.update\<close> and \<open>AList.delete\<close>), whose values are addresses into \<open>chans\<close>.
  The fields \<^verbatim>\<open>newExecutor\<close> and \<^verbatim>\<open>clusterStore\<close> are the functions of that name in
  \<open>world\<close>; \<^verbatim>\<open>log\<close> is the effect \<open>Log\<close>; \<^verbatim>\<open>provisionerCreator\<close> is only handed
  on to the worker and \<^verbatim>\<open>reconcileFreq\<close> only sets how often a tick arrives. The
  fields \<open>chans\<close> and \<open>effects\<close> are not fields of the struct: they are the channels
  the Go runtime holds and what the loop has done so far.
\<close>

record multiClusterController =
  assetsDir :: string
  clusterControllers :: "(string \<times> nat) list"
  chans :: "chan list"
  effects :: "effect list"

definition emit :: "effect list \<Rightarrow> multiClusterController \<Rightarrow> multiClusterController" where
  "emit es s = s\<lparr>effects := effects s @ es\<rparr>"

text \<open>\<^verbatim>\<open>make(chan struct{}, n)\<close>: a fresh address, an open empty channel.\<close>

definition make_chan :: "nat \<Rightarrow> multiClusterController \<Rightarrow> nat \<times> multiClusterController" where
  "make_chan n s =
     (length (chans s),
      emit [Make (length (chans s))]
        (s\<lparr>chans := chans s @ [\<lparr>buffered = 0, capacity = n, closed = False\<rparr>]\<rparr>))"

text \<open>
  \<^verbatim>\<open>close(ch)\<close>. An address outside the heap stands for the nil channel, the only
  channel value that refers to no channel.
\<close>

definition close_chan :: "nat \<Rightarrow> multiClusterController \<Rightarrow> panic + multiClusterController" where
  "close_chan a s =
     (if length (chans s) \<le> a then Inl close_of_nil_channel
      else if closed (chans s ! a) then Inl close_of_closed_channel
      else Inr (emit [Close a] (s\<lparr>chans := (chans s)[a := (chans s ! a)\<lparr>closed := True\<rparr>]\<rparr>)))"

text \<open>
  \<^verbatim>\<open>select { case ch <- struct{}{}: default: log.Printf("buffer ... full") }\<close>.
  A send on a nil channel is never ready, a send on a closed one panics, a send on an
  open one is ready exactly when the buffer has room.
\<close>

definition try_send :: "string \<Rightarrow> nat \<Rightarrow> multiClusterController \<Rightarrow> panic + multiClusterController" where
  "try_send name a s =
     (if length (chans s) \<le> a then Inr (emit [Send a False, Log (BufferFull name)] s)
      else if closed (chans s ! a) then Inl send_on_closed_channel
      else if buffered (chans s ! a) < capacity (chans s ! a)
        then Inr (emit [Send a True]
               (s\<lparr>chans := (chans s)[a := (chans s ! a)\<lparr>buffered := Suc (buffered (chans s ! a))\<rparr>]\<rparr>))
      else Inr (emit [Send a False, Log (BufferFull name)] s))"

subsection \<open>The worker factory\<close>

text \<open>
  \<^verbatim>\<open>json.Unmarshal\<close> answers "unexpected end of JSON input" on an input of length 0,
  nil or not; a watch value is \<open>None\<close> for Go's nil slice.
\<close>

definition json_Unmarshal :: "world \<Rightarrow> string option \<Rightarrow> string + Cluster" where
  "json_Unmarshal w v =
     (case v of
        None \<Rightarrow> Inl ''unexpected end of JSON input''
      | Some bs \<Rightarrow> if bs = [] then Inl ''unexpected end of JSON input'' else json_decode w bs)"

text \<open>
  Modelled from the spec: \<^verbatim>\<open>AssetsDir.ForCluster\<close> is a method of a type that is declared
  outside this file. The spec gives the layout of the workspaces as "one subdirectory
  per cluster name under a configured root": the root, a separator and the name.
\<close>

definition ForCluster :: "string \<Rightarrow> string \<Rightarrow> string" where
  "ForCluster root name = root @ ''/'' @ name"

text \<open>
  \<^verbatim>\<open>filepath.Join\<close> of Go's library on Unix joins its non-empty arguments with the
  separator and cleans the result. \<^verbatim>\<open>filepath.Clean\<close> reads the path element by element:
  an empty element and \<^verbatim>\<open>.\<close> are dropped, \<^verbatim>\<open>..\<close> removes the element before it when
  there is one that is not itself \<^verbatim>\<open>..\<close>, is dropped at the top of a rooted path and is
  kept otherwise; the empty result is \<^verbatim>\<open>.\<close>.
\<close>

fun split_path :: "string \<Rightarrow> string list" where
  "split_path [] = [[]]"
| "split_path (c # cs) =
     (if c = CHR ''/'' then [] # split_path cs
      else (case split_path cs of [] \<Rightarrow> [[c]] | e # es \<Rightarrow> (c # e) # es))"

definition path_rooted :: "string \<Rightarrow> bool" where
  "path_rooted p = (case p of [] \<Rightarrow> False | c # cs \<Rightarrow> c = CHR ''/'')"

text \<open>The elements kept so far are a stack, the last one first.\<close>

definition clean_step :: "bool \<Rightarrow> string \<Rightarrow> string list \<Rightarrow> string list" where
  "clean_step r e st =
     (if e = [] \<or> e = ''.'' then st
      else if e = ''..'' then
        (case st of
           [] \<Rightarrow> if r then [] else [''..'']
         | t # ts \<Rightarrow> if t = ''..'' then ''..'' # st else ts)
      else e # st)"

definition path_elements :: "string \<Rightarrow> string list" where
  "path_elements p = rev (fold (clean_step (path_rooted p)) (split_path p) [])"

fun join_elements :: "string list \<Rightarrow> string" where
  "join_elements [] = []"
| "join_elements [e] = e"
| "join_elements (e # es) = e @ ''/'' @ join_elements es"

definition filepath_Clean :: "string \<Rightarrow> string" where
  "filepath_Clean p =
     (let out = (if path_rooted p then ''/'' else []) @ join_elements (path_elements p)
      in if out = [] then ''.'' else out)"

definition filepath_Join :: "string \<Rightarrow> string \<Rightarrow> string" where
  "filepath_Join dir file =
     (if dir = [] then (if file = [] then [] else filepath_Clean file)
      else if file = [] then filepath_Clean dir
      else filepath_Clean (dir @ ''/'' @ file))"

text \<open>The permission \<^verbatim>\<open>0700\<close> of the source is octal.\<close>

definition perm_0700 :: "32 word" where
  "perm_0700 = 7 * 64"

definition newClusterController ::
  "world \<Rightarrow> string \<Rightarrow> Cluster \<Rightarrow> multiClusterController
     \<Rightarrow> (string + clusterController) \<times> multiClusterController" where
  "newClusterController w name cluster s =
     (let dir = ForCluster (assetsDir s) name;
          s1 = emit [MkdirAll dir perm_0700] s
      in case os_MkdirAll w dir perm_0700 of
           Some err \<Rightarrow> (Inl (''error creating assets directory: '' @ err), s1)
         | None \<Rightarrow>
            (let p = filepath_Join dir ''kismatic.log'';
                 s2 = emit [Create p] s1
             in case os_Create w p of
                  Inl err \<Rightarrow> (Inl (''error creating log file: '' @ err), s2)
                | Inr f \<Rightarrow>
                   (let s3 = emit [NewExecutor name (ForCluster (assetsDir s) name) f] s2
                    in case newExecutor w name (ForCluster (assetsDir s) name) f of
                         Inl err \<Rightarrow> (Inl (''error creating executor: '' @ err), s3)
                       | Inr ex \<Rightarrow>
                          (Inr \<lparr>clusterName = name, clusterSpec = Spec cluster,
                                clusterAssetsDir = dir, logFile = f, executor = ex\<rparr>, s3))))"

text \<open>
  The three statements both creation paths share:
  \<^verbatim>\<open>newChan := make(...); mcc.clusterControllers[name] = newChan; go cc.run(newChan)\<close>.
\<close>

definition start_worker ::
  "string \<Rightarrow> clusterController \<Rightarrow> multiClusterController \<Rightarrow> nat \<times> multiClusterController" where
  "start_worker name cc s =
     (let (newChan, s1) = make_chan clusterControllerNotificationBuffer s;
          s2 = s1\<lparr>clusterControllers := AList.update name newChan (clusterControllers s1)\<rparr>
      in (newChan, emit [Go cc newChan] s2))"

subsection \<open>The watch case\<close>

definition watch_step ::
  "world \<Rightarrow> string \<Rightarrow> string option \<Rightarrow> multiClusterController \<Rightarrow> panic + multiClusterController" where
  "watch_step w name v s =
     (case map_of (clusterControllers s) name of
        Some ch \<Rightarrow>
          if v = None then
            (case close_chan ch s of
               Inl p \<Rightarrow> Inl p
             | Inr s1 \<Rightarrow> Inr (s1\<lparr>clusterControllers := AList.delete name (clusterControllers s1)\<rparr>))
          else try_send name ch s
      | None \<Rightarrow>
          (case json_Unmarshal w v of
             Inl err \<Rightarrow> Inr (emit [Log (UnmarshalError name err)] s)
           | Inr cluster \<Rightarrow>
              (case newClusterController w name cluster s of
                 (Inl err, s1) \<Rightarrow> Inr (emit [Log (CreateError name err)] s1)
               | (Inr cc, s1) \<Rightarrow>
                   (let (newChan, s2) = start_worker name cc s1
                    in try_send name newChan s2))))"

subsection \<open>The ticker case\<close>

text \<open>The keys of a Go map in the order a \<^verbatim>\<open>range\<close> statement visits them.\<close>

definition range_keys :: "(string \<Rightarrow> nat) \<Rightarrow> (string \<times> 'v) list \<Rightarrow> string list" where
  "range_keys rank m = sort_key rank (map fst (AList.clearjunk m))"

text \<open>
  First loop: a worker for every defined cluster that has none. The names come from the
  snapshot the loop ranges over, so the lookup in it always finds the cluster; the
  snapshot is not changed by the loop.
\<close>

fun ensure_workers ::
  "world \<Rightarrow> (string \<times> Cluster) list \<Rightarrow> string list \<Rightarrow> multiClusterController
     \<Rightarrow> multiClusterController" where
  "ensure_workers w defs [] s = s"
| "ensure_workers w defs (name # rest) s =
     (case map_of defs name of
        None \<Rightarrow> ensure_workers w defs rest s
      | Some cluster \<Rightarrow>
         (case map_of (clusterControllers s) name of
            Some ch \<Rightarrow> ensure_workers w defs rest s
          | None \<Rightarrow>
             (case newClusterController w name cluster s of
                (Inl err, s1) \<Rightarrow> ensure_workers w defs rest (emit [Log (CreateError name err)] s1)
              | (Inr cc, s1) \<Rightarrow> ensure_workers w defs rest (snd (start_worker name cc s1)))))"

text \<open>
  Second loop: close and delete the entries whose cluster is no longer defined. The
  loop deletes from the map it ranges over; Go does not produce an entry that was
  removed before it was reached, which is the \<open>None\<close> case.
\<close>

fun remove_lingering ::
  "(string \<times> Cluster) list \<Rightarrow> string list \<Rightarrow> multiClusterController
     \<Rightarrow> panic + multiClusterController" where
  "remove_lingering defs [] s = Inr s"
| "remove_lingering defs (name # rest) s =
     (case map_of (clusterControllers s) name of
        None \<Rightarrow> remove_lingering defs rest s
      | Some ch \<Rightarrow>
         (case map_of defs name of
            Some cluster \<Rightarrow> remove_lingering defs rest s
          | None \<Rightarrow>
             (case close_chan ch s of
                Inl p \<Rightarrow> Inl p
              | Inr s1 \<Rightarrow>
                 remove_lingering defs rest
                   (s1\<lparr>clusterControllers := AList.delete name (clusterControllers s1)\<rparr>))))"

text \<open>Third loop: one non-blocking send to every registered worker.\<close>

fun poke_all :: "string list \<Rightarrow> multiClusterController \<Rightarrow> panic + multiClusterController" where
  "poke_all [] s = Inr s"
| "poke_all (name # rest) s =
     (case map_of (clusterControllers s) name of
        None \<Rightarrow> poke_all rest s
      | Some ch \<Rightarrow>
         (case try_send name ch s of
            Inl p \<Rightarrow> Inl p
          | Inr s1 \<Rightarrow> poke_all rest s1))"

definition tick_step :: "world \<Rightarrow> multiClusterController \<Rightarrow> panic + multiClusterController" where
  "tick_step w s =
     (let s0 = emit [Log TickLine] s
      in case GetAll w of
           Inl err \<Rightarrow> Inr (emit [Log (GetAllError err)] s0)
         | Inr definedClusters \<Rightarrow>
            (let s1 = ensure_workers w definedClusters
                        (range_keys (rangeRank w 0) definedClusters) s0
             in case remove_lingering definedClusters
                       (range_keys (rangeRank w 1) (clusterControllers s1)) s1 of
                  Inl p \<Rightarrow> Inl p
                | Inr s2 \<Rightarrow> poke_all (range_keys (rangeRank w 2) (clusterControllers s2)) s2))"

subsection \<open>The cancellation case\<close>

fun close_all :: "string list \<Rightarrow> multiClusterController \<Rightarrow> panic + multiClusterController" where
  "close_all [] s = Inr s"
| "close_all (name # rest) s =
     (case map_of (clusterControllers s) name of
        None \<Rightarrow> close_all rest s
      | Some v \<Rightarrow>
         (case close_chan v s of
            Inl p \<Rightarrow> Inl p
          | Inr s1 \<Rightarrow> close_all rest s1))"

definition shutdown :: "world \<Rightarrow> multiClusterController \<Rightarrow> panic + multiClusterController" where
  "shutdown w s =
     (let s0 = emit [Log Stopping] s
      in close_all (range_keys (rangeRank w 3) (clusterControllers s0)) s0)"

subsection \<open>The loop\<close>

text \<open>
  The workers run beside the loop and take notifications off their channels. A receive
  changes nothing but the count of one buffer: on an empty channel, open or closed, it
  leaves the state as it is. The model places receives between the rounds of the loop;
  a receive in the middle of a round could only turn a dropped send of that round into
  a delivered one.
\<close>

definition worker_receive :: "nat \<Rightarrow> multiClusterController \<Rightarrow> multiClusterController" where
  "worker_receive a s =
     (if a < length (chans s) \<and> 0 < buffered (chans s ! a)
      then s\<lparr>chans := (chans s)[a := (chans s ! a)\<lparr>buffered := buffered (chans s ! a) - 1\<rparr>]\<rparr>
      else s)"

text \<open>
  The events are what the \<^verbatim>\<open>select\<close> receives, in the order it receives them, each
  with the answers of the outside while it is handled; \<open>Received a\<close> is not a case of the
  \<^verbatim>\<open>select\<close> but a receive of a worker on channel \<open>a\<close> between two rounds of the loop.
  When the list is used up the loop is waiting in its \<^verbatim>\<open>select\<close>; after the
  cancellation it has returned and the events left over are never read.
\<close>

datatype event =
    WatchResp world string "string option"
  | Ticker world
  | CtxDone world
  | Received nat

datatype status = Waiting | Returned

fun loop :: "event list \<Rightarrow> multiClusterController \<Rightarrow> panic + status \<times> multiClusterController" where
  "loop [] s = Inr (Waiting, s)"
| "loop (WatchResp w name v # evs) s =
     (case watch_step w name v s of Inl p \<Rightarrow> Inl p | Inr s1 \<Rightarrow> loop evs s1)"
| "loop (Ticker w # evs) s =
     (case tick_step w s of Inl p \<Rightarrow> Inl p | Inr s1 \<Rightarrow> loop evs s1)"
| "loop (CtxDone w # evs) s =
     (case shutdown w s of Inl p \<Rightarrow> Inl p | Inr s1 \<Rightarrow> Inr (Returned, s1))"
| "loop (Received a # evs) s = loop evs (worker_receive a s)"

definition Run :: "event list \<Rightarrow> multiClusterController \<Rightarrow> panic + status \<times> multiClusterController" where
  "Run evs s = loop evs (emit [Log Started] s)"

subsection \<open>Well-formed states\<close>

text \<open>
  What the loop maintains about its map: it is a map, no two names share a channel,
  and every channel in it exists, is open, has the capacity the constant gives and
  holds no more than that.
\<close>

definition wf_mcc :: "multiClusterController \<Rightarrow> bool" where
  "wf_mcc s \<longleftrightarrow>
     distinct (map fst (clusterControllers s)) \<and>
     distinct (map snd (clusterControllers s)) \<and>
     (\<forall>(name, a) \<in> set (clusterControllers s).
        a < length (chans s) \<and> \<not> closed (chans s ! a) \<and>
        capacity (chans s ! a) = clusterControllerNotificationBuffer \<and>
        buffered (chans s ! a) \<le> capacity (chans s ! a))"

subsection \<open>Histories\<close>

text \<open>
  In a list of effects, no send on a channel comes after the close of that channel.
\<close>

fun no_send_after_close :: "effect list \<Rightarrow> bool" where
  "no_send_after_close [] = True"
| "no_send_after_close (e # es) =
     ((case e of
         Close a \<Rightarrow> Send a True \<notin> set es \<and> Send a False \<notin> set es
       | _ \<Rightarrow> True) \<and>
      no_send_after_close es)"

fun is_Send :: "effect \<Rightarrow> bool" where
  "is_Send (Send a ok) = True"
| "is_Send e = False"

fun is_Close :: "effect \<Rightarrow> bool" where
  "is_Close (Close a) = True"
| "is_Close e = False"

text \<open>The channels the effects closed are closed in the heap.\<close>

definition closes_recorded :: "multiClusterController \<Rightarrow> bool" where
  "closes_recorded s \<longleftrightarrow>
     list_all (\<lambda>e. case e of Close a \<Rightarrow> a < length (chans s) \<and> closed (chans s ! a) | _ \<Rightarrow> True)
       (effects s)"

text \<open>What every step of the loop keeps.\<close>

definition inv_mcc :: "multiClusterController \<Rightarrow> bool" where
  "inv_mcc s \<longleftrightarrow> wf_mcc s \<and> closes_recorded s \<and> no_send_after_close (effects s)"

subsection \<open>Relations between the states of one step\<close>

text \<open>
  How a state can differ from an earlier one when channels were only added: the old
  entries of the map and the old channels are as they were, and the effects added
  neither send nor close.
\<close>

definition grows :: "multiClusterController \<Rightarrow> multiClusterController \<Rightarrow> bool" where
  "grows s s' \<longleftrightarrow>
     assetsDir s' = assetsDir s \<and>
     (\<forall>k a. map_of (clusterControllers s) k = Some a \<longrightarrow> map_of (clusterControllers s') k = Some a) \<and>
     length (chans s) \<le> length (chans s') \<and>
     (\<forall>a < length (chans s). chans s' ! a = chans s ! a) \<and>
     (\<exists>es. effects s' = effects s @ es \<and> (\<forall>e\<in>set es. \<not> is_Send e \<and> \<not> is_Close e))"

text \<open>The effects added between an earlier state and a later one.\<close>

definition since :: "multiClusterController \<Rightarrow> multiClusterController \<Rightarrow> effect list" where
  "since s s' = drop (length (effects s)) (effects s')"

text \<open>The body of the first loop of a tick, for one name.\<close>

definition ensure_one ::
  "world \<Rightarrow> (string \<times> Cluster) list \<Rightarrow> string \<Rightarrow> multiClusterController
     \<Rightarrow> multiClusterController" where
  "ensure_one w defs name s =
     (case map_of defs name of
        None \<Rightarrow> s
      | Some cluster \<Rightarrow>
         (case map_of (clusterControllers s) name of
            Some ch \<Rightarrow> s
          | None \<Rightarrow>
             (case newClusterController w name cluster s of
                (Inl err, s1) \<Rightarrow> emit [Log (CreateError name err)] s1
              | (Inr cc, s1) \<Rightarrow> snd (start_worker name cc s1))))"

text \<open>Closing a worker's channel and deleting its entry, as two cases of the loop do.\<close>

definition terminated :: "string \<Rightarrow> nat \<Rightarrow> multiClusterController \<Rightarrow> multiClusterController" where
  "terminated name ch s =
     emit [Close ch]
       (s\<lparr>chans := (chans s)[ch := (chans s ! ch)\<lparr>closed := True\<rparr>],
          clusterControllers := AList.delete name (clusterControllers s)\<rparr>)"

text \<open>
  How a state can differ from an earlier one when channels were only closed and entries
  only deleted, and when notifications were only sent.
\<close>

definition closes :: "multiClusterController \<Rightarrow> multiClusterController \<Rightarrow> bool" where
  "closes s s' \<longleftrightarrow>
     assetsDir s' = assetsDir s \<and>
     length (chans s') = length (chans s) \<and>
     (\<forall>a. closed (chans s ! a) \<longrightarrow> closed (chans s' ! a)) \<and>
     (\<exists>cs. effects s' = effects s @ cs \<and> (\<forall>e\<in>set cs. is_Close e))"

definition pokes :: "multiClusterController \<Rightarrow> multiClusterController \<Rightarrow> bool" where
  "pokes s s' \<longleftrightarrow>
     assetsDir s' = assetsDir s \<and>
     clusterControllers s' = clusterControllers s \<and>
     length (chans s') = length (chans s) \<and>
     (\<forall>a. closed (chans s' ! a) = closed (chans s ! a)) \<and>
     (\<exists>es. effects s' = effects s @ es \<and> (\<forall>e\<in>set es. \<not> is_Close e))"

subsection \<open>Concrete worlds and states\<close>

text \<open>A world in which every call succeeds and the store defines \<open>a\<close> and \<open>b\<close>.\<close>

definition w_ok :: world where
  "w_ok =
     \<lparr>os_MkdirAll = (\<lambda>p m. None),
      os_Create = (\<lambda>p. Inr 3),
      newExecutor = (\<lambda>name dir f. Inr 7),
      json_decode = (\<lambda>bs. Inr \<lparr>Spec = bs\<rparr>),
      GetAll = Inr [(''a'', \<lparr>Spec = ''x''\<rparr>), (''b'', \<lparr>Spec = ''y''\<rparr>)],
      rangeRank = (\<lambda>i name. length name)\<rparr>"

text \<open>The same world with the store unreachable.\<close>

definition w_down :: world where
  "w_down = w_ok\<lparr>GetAll := Inl ''store down''\<rparr>"

text \<open>The same world with a store that defines \<open>b\<close> and \<open>c\<close>, and no executor for \<open>c\<close>.\<close>

definition w_bc :: world where
  "w_bc =
     w_ok\<lparr>GetAll := Inr [(''c'', \<lparr>Spec = ''z''\<rparr>), (''b'', \<lparr>Spec = ''y''\<rparr>)],
          newExecutor := (\<lambda>name dir f. if name = ''c'' then Inl ''no executor'' else Inr 7)\<rparr>"

text \<open>The three steps of the factory failing in turn.\<close>

definition w_nodir :: world where
  "w_nodir = w_ok\<lparr>os_MkdirAll := (\<lambda>p m. Some ''read-only'')\<rparr>"

definition w_nofile :: world where
  "w_nofile = w_ok\<lparr>os_Create := (\<lambda>p. Inl ''denied'')\<rparr>"

definition w_noexec :: world where
  "w_noexec = w_ok\<lparr>newExecutor := (\<lambda>name dir f. Inl ''no executor'')\<rparr>"

text \<open>The worker the factory builds for \<open>a\<close> in the first world.\<close>

definition cc_a :: clusterController where
  "cc_a = \<lparr>clusterName = ''a'', clusterSpec = ''x'', clusterAssetsDir = ''r/a'',
           logFile = 3, executor = 7\<rparr>"

definition open_chan :: "nat \<Rightarrow> chan" where
  "open_chan n = \<lparr>buffered = n, capacity = 10, closed = False\<rparr>"

text \<open>No worker; one worker \<open>a\<close>; \<open>a\<close> with a full buffer; two workers \<open>a\<close> and \<open>b\<close>.\<close>

definition s_empty :: multiClusterController where
  "s_empty = \<lparr>assetsDir = ''r'', clusterControllers = [], chans = [], effects = []\<rparr>"

definition s_a :: multiClusterController where
  "s_a = \<lparr>assetsDir = ''r'', clusterControllers = [(''a'', 0)], chans = [open_chan 0],
          effects = []\<rparr>"

definition s_full :: multiClusterController where
  "s_full = \<lparr>assetsDir = ''r'', clusterControllers = [(''a'', 0)], chans = [open_chan 10],
             effects = []\<rparr>"

definition s_ab :: multiClusterController where
  "s_ab = \<lparr>assetsDir = ''r'', clusterControllers = [(''a'', 0), (''b'', 1)],
           chans = [open_chan 0, open_chan 4], effects = []\<rparr>"

text \<open>
  The state after a tick in the third world from \<open>s_ab\<close>: \<open>a\<close> is gone and its channel
  closed, \<open>c\<close> has no worker because its executor could not be made, \<open>b\<close> was notified.
\<close>

definition s_ab_ticked :: multiClusterController where
  "s_ab_ticked =
     \<lparr>assetsDir = ''r'', clusterControllers = [(''b'', 1)],
      chans = [\<lparr>buffered = 0, capacity = 10, closed = True\<rparr>, open_chan 5],
      effects =
        [Log TickLine, MkdirAll ''r/c'' perm_0700, Create ''r/c/kismatic.log'',
         NewExecutor ''c'' ''r/c'' 3,
         Log (CreateError ''c'' ''error creating executor: no executor''),
         Close 0, Send 1 True]\<rparr>"

text \<open>
  The state after a tick in the third world from \<open>s_a\<close>: the factory fails for \<open>c\<close> and
  then succeeds for \<open>b\<close>, the worker of \<open>a\<close> is stopped, \<open>b\<close> is notified.
\<close>

definition s_a_ticked :: multiClusterController where
  "s_a_ticked =
     \<lparr>assetsDir = ''r'', clusterControllers = [(''b'', 1)],
      chans = [\<lparr>buffered = 0, capacity = 10, closed = True\<rparr>, open_chan 1],
      effects =
        [Log TickLine, MkdirAll ''r/c'' perm_0700, Create ''r/c/kismatic.log'',
         NewExecutor ''c'' ''r/c'' 3,
         Log (CreateError ''c'' ''error creating executor: no executor''),
         MkdirAll ''r/b'' perm_0700, Create ''r/b/kismatic.log'',
         NewExecutor ''b'' ''r/b'' 3, Make 1,
         Go \<lparr>clusterName = ''b'', clusterSpec = ''y'', clusterAssetsDir = ''r/b'',
             logFile = 3, executor = 7\<rparr> 1,
         Close 0, Send 1 True]\<rparr>"

text \<open>The state after the cancellation from \<open>s_ab\<close>: both channels closed, the map as before.\<close>

definition s_ab_stopped :: multiClusterController where
  "s_ab_stopped =
     \<lparr>assetsDir = ''r'', clusterControllers = [(''a'', 0), (''b'', 1)],
      chans = [\<lparr>buffered = 0, capacity = 10, closed = True\<rparr>,
               \<lparr>buffered = 4, capacity = 10, closed = True\<rparr>],
      effects = [Log Stopping, Close 0, Close 1]\<rparr>"

text \<open>
  A run from \<open>s_a\<close>: \<open>a\<close> is deleted and defined again, its new worker takes the
  first notification, a tick finds the store unreachable, the context is cancelled, and
  a last tick is never read.
\<close>

definition evs_a :: "event list" where
  "evs_a =
     [WatchResp w_ok ''a'' None, WatchResp w_ok ''a'' (Some ''x''), Received 1,
      Ticker w_down, CtxDone w_ok, Ticker w_ok]"

definition s_a_run :: multiClusterController where
  "s_a_run =
     \<lparr>assetsDir = ''r'', clusterControllers = [(''a'', 1)],
      chans = [\<lparr>buffered = 0, capacity = 10, closed = True\<rparr>,
               \<lparr>buffered = 0, capacity = 10, closed = True\<rparr>],
      effects =
        [Log Started, Close 0, MkdirAll ''r/a'' perm_0700, Create ''r/a/kismatic.log'',
         NewExecutor ''a'' ''r/a'' 3, Make 1, Go cc_a 1, Send 1 True, Log TickLine,
         Log (GetAllError ''store down''), Log Stopping, Close 1]\<rparr>"

section \<open>Basic facts\<close>

lemma clusterControllers_emit [simp]: "clusterControllers (emit es s) = clusterControllers s"
  by (simp add: emit_def)

lemma chans_emit [simp]: "chans (emit es s) = chans s"
  by (simp add: emit_def)

lemma assetsDir_emit [simp]: "assetsDir (emit es s) = assetsDir s"
  by (simp add: emit_def)

lemma effects_emit [simp]: "effects (emit es s) = effects s @ es"
  by (simp add: emit_def)

lemma emit_emit: "emit es (emit ds s) = emit (ds @ es) s"
  by (simp add: emit_def)

lemma wf_mcc_emit [simp]: "wf_mcc (emit es s) = wf_mcc s"
  by (simp add: wf_mcc_def)

lemma wf_mccD:
  "wf_mcc s \<Longrightarrow> map_of (clusterControllers s) name = Some a \<Longrightarrow>
   a < length (chans s) \<and> \<not> closed (chans s ! a) \<and>
   capacity (chans s ! a) = clusterControllerNotificationBuffer \<and>
   buffered (chans s ! a) \<le> capacity (chans s ! a)"
  by (auto simp: wf_mcc_def dest: map_of_SomeD)

text \<open>No two names share a channel.\<close>

lemma wf_mcc_inj:
  assumes "wf_mcc s" and "map_of (clusterControllers s) k = Some a"
    and "map_of (clusterControllers s) k' = Some a"
  shows "k = k'"
proof -
  from assms(2,3) have "(k, a) \<in> set (clusterControllers s)" "(k', a) \<in> set (clusterControllers s)"
    by (auto dest: map_of_SomeD)
  moreover from assms(1) have "distinct (map snd (clusterControllers s))"
    by (simp add: wf_mcc_def)
  ultimately show ?thesis
    by (metis distinct_map inj_on_def snd_conv fst_conv)
qed

lemma update_fresh: "k \<notin> fst ` set al \<Longrightarrow> AList.update k v al = al @ [(k, v)]"
  by (induction al) auto

lemma start_worker_eq:
  "start_worker name cc s =
     (length (chans s),
      emit [Make (length (chans s)), Go cc (length (chans s))]
        (s\<lparr>chans := chans s @ [\<lparr>buffered = 0, capacity = clusterControllerNotificationBuffer,
                                closed = False\<rparr>],
           clusterControllers := AList.update name (length (chans s)) (clusterControllers s)\<rparr>))"
  by (simp add: start_worker_def make_chan_def emit_def)

lemma wf_mcc_start_worker:
  assumes "wf_mcc s" "map_of (clusterControllers s) name = None"
  shows "wf_mcc (snd (start_worker name cc s))"
proof -
  let ?r = "clusterControllers s"
  from assms(2) have notin: "name \<notin> fst ` set ?r" by (simp add: map_of_eq_None_iff)
  then have upd: "AList.update name (length (chans s)) ?r = ?r @ [(name, length (chans s))]"
    by (rule update_fresh)
  from assms(1) have "\<forall>(n, a) \<in> set ?r. a < length (chans s)" by (auto simp: wf_mcc_def)
  then have fresh: "length (chans s) \<notin> snd ` set ?r" by auto
  show ?thesis
    using assms(1) notin fresh
    by (auto simp: start_worker_eq upd wf_mcc_def nth_append)
qed

lemma newClusterController_frame:
  "\<exists>es. snd (newClusterController w name cluster s) =
     emit (MkdirAll (ForCluster (assetsDir s) name) perm_0700 # es) s"
  by (auto simp: newClusterController_def Let_def emit_emit split: option.splits sum.splits)

subsection \<open>Sending, closing and the invariant\<close>

lemma try_send_tracked:
  assumes "wf_mcc s" "map_of (clusterControllers s) name = Some ch"
  shows "try_send name' ch s =
          Inr (if buffered (chans s ! ch) < capacity (chans s ! ch)
               then emit [Send ch True]
                      (s\<lparr>chans := (chans s)[ch := (chans s ! ch)\<lparr>buffered := Suc (buffered (chans s ! ch))\<rparr>]\<rparr>)
               else emit [Send ch False, Log (BufferFull name')] s)"
  using wf_mccD [OF assms] by (simp add: try_send_def)

lemma wf_mcc_buffered:
  assumes "wf_mcc s" "map_of (clusterControllers s) name = Some ch"
    "buffered (chans s ! ch) < capacity (chans s ! ch)"
  shows "wf_mcc (s\<lparr>chans := (chans s)[ch := (chans s ! ch)\<lparr>buffered := Suc (buffered (chans s ! ch))\<rparr>]\<rparr>)"
proof -
  from wf_mccD [OF assms(1,2)] have lt: "ch < length (chans s)" by simp
  show ?thesis
    unfolding wf_mcc_def
  proof (intro conjI ballI)
    fix x assume x: "x \<in> set (clusterControllers
      (s\<lparr>chans := (chans s)[ch := (chans s ! ch)\<lparr>buffered := Suc (buffered (chans s ! ch))\<rparr>]\<rparr>))"
    obtain k a where ka: "x = (k, a)" by (cases x)
    with x assms(1) have "map_of (clusterControllers s) k = Some a" by (simp add: wf_mcc_def)
    from wf_mccD [OF assms(1) this] assms(3) lt
    show "case x of (name, a) \<Rightarrow>
        a < length (chans (s\<lparr>chans := (chans s)[ch := (chans s ! ch)\<lparr>buffered := Suc (buffered (chans s ! ch))\<rparr>]\<rparr>)) \<and>
        \<not> closed (chans (s\<lparr>chans := (chans s)[ch := (chans s ! ch)\<lparr>buffered := Suc (buffered (chans s ! ch))\<rparr>]\<rparr>) ! a) \<and>
        capacity (chans (s\<lparr>chans := (chans s)[ch := (chans s ! ch)\<lparr>buffered := Suc (buffered (chans s ! ch))\<rparr>]\<rparr>) ! a) =
          clusterControllerNotificationBuffer \<and>
        buffered (chans (s\<lparr>chans := (chans s)[ch := (chans s ! ch)\<lparr>buffered := Suc (buffered (chans s ! ch))\<rparr>]\<rparr>) ! a)
          \<le> capacity (chans (s\<lparr>chans := (chans s)[ch := (chans s ! ch)\<lparr>buffered := Suc (buffered (chans s ! ch))\<rparr>]\<rparr>) ! a)"
      by (auto simp: ka nth_list_update)
  qed (use assms(1) in \<open>simp_all add: wf_mcc_def\<close>)
qed

lemma wf_mcc_try_send:
  assumes "wf_mcc s" "map_of (clusterControllers s) name = Some ch"
  shows "\<exists>s'. try_send name' ch s = Inr s' \<and> wf_mcc s'"
  using wf_mcc_buffered [OF assms] assms(1) by (simp add: try_send_tracked [OF assms])

lemma wf_mcc_sub:
  assumes "wf_mcc s"
    and "set (clusterControllers s') \<subseteq> set (clusterControllers s)"
    and "distinct (map fst (clusterControllers s'))"
    and "distinct (map snd (clusterControllers s'))"
    and "length (chans s') = length (chans s)"
    and "\<And>k a. (k, a) \<in> set (clusterControllers s') \<Longrightarrow> chans s' ! a = chans s ! a"
  shows "wf_mcc s'"
  unfolding wf_mcc_def
proof (intro conjI ballI)
  fix x assume x: "x \<in> set (clusterControllers s')"
  obtain k a where ka: "x = (k, a)" by (cases x)
  from x ka assms(2) have "(k, a) \<in> set (clusterControllers s)" by auto
  with assms(1) have "map_of (clusterControllers s) k = Some a" by (simp add: wf_mcc_def)
  from wf_mccD [OF assms(1) this] assms(5) assms(6) [of k a] x ka
  show "case x of (name, a) \<Rightarrow>
          a < length (chans s') \<and> \<not> closed (chans s' ! a) \<and>
          capacity (chans s' ! a) = clusterControllerNotificationBuffer \<and>
          buffered (chans s' ! a) \<le> capacity (chans s' ! a)"
    by simp
qed (use assms(3,4) in simp_all)

lemma close_chan_tracked:
  assumes "wf_mcc s" "map_of (clusterControllers s) name = Some ch"
  shows "close_chan ch s =
           Inr (emit [Close ch] (s\<lparr>chans := (chans s)[ch := (chans s ! ch)\<lparr>closed := True\<rparr>]\<rparr>))"
  using wf_mccD [OF assms] by (simp add: close_chan_def)

lemma wf_mcc_close_delete:
  assumes "wf_mcc s" "map_of (clusterControllers s) name = Some ch"
  shows "wf_mcc (s\<lparr>chans := (chans s)[ch := (chans s ! ch)\<lparr>closed := True\<rparr>],
                  clusterControllers := AList.delete name (clusterControllers s)\<rparr>)"
proof -
  have other: "a \<noteq> ch" if "(k, a) \<in> set (AList.delete name (clusterControllers s))" for k a
  proof -
    from that have "k \<noteq> name" "(k, a) \<in> set (clusterControllers s)"
      by (auto simp: AList.delete_eq)
    with assms(1) have "map_of (clusterControllers s) k = Some a"
      by (simp add: wf_mcc_def)
    with wf_mcc_inj [OF assms(1) assms(2)] \<open>k \<noteq> name\<close> show ?thesis by auto
  qed
  have sub: "set (AList.delete name (clusterControllers s)) \<subseteq> set (clusterControllers s)"
    by (auto simp: AList.delete_eq)
  from assms(1) have d: "distinct (map fst (AList.delete name (clusterControllers s)))"
    "distinct (map snd (AList.delete name (clusterControllers s)))"
    by (auto simp: wf_mcc_def AList.delete_eq distinct_map_filter)
  show ?thesis
  proof (rule wf_mcc_sub [OF assms(1)])
    fix k a
    assume "(k, a) \<in> set (clusterControllers
      (s\<lparr>chans := (chans s)[ch := (chans s ! ch)\<lparr>closed := True\<rparr>],
         clusterControllers := AList.delete name (clusterControllers s)\<rparr>))"
    then have "ch \<noteq> a" using other [of k a] by auto
    then show "chans (s\<lparr>chans := (chans s)[ch := (chans s ! ch)\<lparr>closed := True\<rparr>],
         clusterControllers := AList.delete name (clusterControllers s)\<rparr>) ! a = chans s ! a"
      by simp
  qed (use sub d in simp_all)
qed

subsection \<open>Repeated updates of one cluster\<close>

lemma watch_step_tracked:
  "map_of (clusterControllers s) name = Some ch \<Longrightarrow>
   watch_step w name (Some bs) s = try_send name ch s"
  by (simp add: watch_step_def)

lemma watch_fill:
  assumes "wf_mcc s" and "map_of (clusterControllers s) name = Some ch"
    and "buffered (chans s ! ch) + n \<le> clusterControllerNotificationBuffer"
  shows "loop (replicate n (WatchResp w name (Some bs)) @ evs) s =
         loop evs (emit (replicate n (Send ch True))
           (s\<lparr>chans := (chans s)[ch := (chans s ! ch)\<lparr>buffered := buffered (chans s ! ch) + n\<rparr>]\<rparr>))"
  using assms
proof (induction n arbitrary: s)
  case 0
  then show ?case by (simp add: emit_def)
next
  case (Suc n)
  let ?c = "chans s ! ch"
  let ?s1 = "emit [Send ch True] (s\<lparr>chans := (chans s)[ch := ?c\<lparr>buffered := Suc (buffered ?c)\<rparr>]\<rparr>)"
  from wf_mccD [OF Suc.prems(1,2)] Suc.prems(3)
  have lt: "ch < length (chans s)" and room: "buffered ?c < capacity ?c" by simp_all
  have step: "watch_step w name (Some bs) s = Inr ?s1"
    using room by (simp add: watch_step_tracked [OF Suc.prems(2)] try_send_tracked [OF Suc.prems(1,2)])
  have wf1: "wf_mcc ?s1"
    using wf_mcc_buffered [OF Suc.prems(1,2) room] by simp
  have tr1: "map_of (clusterControllers ?s1) name = Some ch"
    using Suc.prems(2) by simp
  have b1: "buffered (chans ?s1 ! ch) + n \<le> clusterControllerNotificationBuffer"
    using Suc.prems(3) lt by simp
  have "loop (replicate (Suc n) (WatchResp w name (Some bs)) @ evs) s =
        loop (replicate n (WatchResp w name (Some bs)) @ evs) ?s1"
    by (simp add: step)
  also note Suc.IH [OF wf1 tr1 b1]
  finally show ?case using lt by (simp add: emit_def)
qed

subsection \<open>The invariant under the loop's operations\<close>

lemma no_send_after_close_append:
  "no_send_after_close (xs @ ys) \<longleftrightarrow>
     no_send_after_close xs \<and> no_send_after_close ys \<and>
     (\<forall>a. Close a \<in> set xs \<longrightarrow> Send a True \<notin> set ys \<and> Send a False \<notin> set ys)"
  by (induction xs) (auto split: effect.splits)

lemma quiet_no_send:
  "\<forall>e\<in>set es. \<not> is_Send e \<Longrightarrow> Send a b \<notin> set es"
  by auto

lemma no_send_after_close_quiet:
  "\<forall>e\<in>set es. \<not> is_Send e \<Longrightarrow> no_send_after_close es"
  by (induction es) (auto split: effect.splits)

lemma closes_recordedD:
  "closes_recorded s \<Longrightarrow> Close a \<in> set (effects s) \<Longrightarrow> a < length (chans s) \<and> closed (chans s ! a)"
  by (auto simp: closes_recorded_def list_all_iff split: effect.splits)

lemma closes_recordedI:
  "(\<And>a. Close a \<in> set (effects s) \<Longrightarrow> a < length (chans s) \<and> closed (chans s ! a))
   \<Longrightarrow> closes_recorded s"
  by (auto simp: closes_recorded_def list_all_iff split: effect.splits)

text \<open>Effects that neither send nor close keep the invariant.\<close>

lemma inv_mcc_emit:
  assumes "inv_mcc s" and "\<forall>e\<in>set es. \<not> is_Send e \<and> \<not> is_Close e"
  shows "inv_mcc (emit es s)"
proof -
  from assms(2) have nc: "Close a \<notin> set es" for a by auto
  from assms(2) have ns: "\<forall>e\<in>set es. \<not> is_Send e" by auto
  have "closes_recorded (emit es s)"
    using assms(1) nc by (auto intro!: closes_recordedI dest: closes_recordedD simp: inv_mcc_def)
  moreover have "no_send_after_close (effects s @ es)"
    using assms(1) quiet_no_send [OF ns] no_send_after_close_quiet [OF ns]
    by (simp add: no_send_after_close_append inv_mcc_def)
  ultimately show ?thesis using assms(1) by (simp add: inv_mcc_def)
qed

lemma newClusterController_quiet:
  "\<exists>es. snd (newClusterController w name cluster s) = emit es s \<and>
        (\<forall>e\<in>set es. \<not> is_Send e \<and> \<not> is_Close e) \<and>
        MkdirAll (ForCluster (assetsDir s) name) perm_0700 \<in> set es"
proof -
  let ?s' = "snd (newClusterController w name cluster s)"
  let ?es = "drop (length (effects s)) (effects ?s')"
  have "?s' = emit ?es s"
    by (simp add: newClusterController_def Let_def emit_def split: option.splits sum.splits)
  moreover have "\<forall>e\<in>set ?es. \<not> is_Send e \<and> \<not> is_Close e"
    by (simp add: newClusterController_def Let_def emit_def split: option.splits sum.splits)
  moreover have "MkdirAll (ForCluster (assetsDir s) name) perm_0700 \<in> set ?es"
    by (simp add: newClusterController_def Let_def emit_def split: option.splits sum.splits)
  ultimately show ?thesis by blast
qed

lemma inv_mcc_newClusterController:
  "inv_mcc s \<Longrightarrow> inv_mcc (snd (newClusterController w name cluster s))"
  using newClusterController_quiet [of w name cluster s] by (auto intro: inv_mcc_emit)

lemma inv_mcc_start_worker:
  assumes "inv_mcc s" and "map_of (clusterControllers s) name = None"
  shows "inv_mcc (snd (start_worker name cc s))"
proof -
  let ?s' = "snd (start_worker name cc s)"
  from assms have wf: "wf_mcc ?s'" by (simp add: inv_mcc_def wf_mcc_start_worker)
  have eff: "effects ?s' = effects s @ [Make (length (chans s)), Go cc (length (chans s))]"
    and ch: "chans ?s' = chans s @ [\<lparr>buffered = 0, capacity = clusterControllerNotificationBuffer, closed = False\<rparr>]"
    by (simp_all add: start_worker_eq)
  have "closes_recorded ?s'"
  proof (rule closes_recordedI)
    fix a assume "Close a \<in> set (effects ?s')"
    then have "Close a \<in> set (effects s)" by (simp add: eff)
    with assms(1) have "a < length (chans s) \<and> closed (chans s ! a)"
      by (auto simp: inv_mcc_def dest: closes_recordedD)
    then show "a < length (chans ?s') \<and> closed (chans ?s' ! a)"
      by (simp add: ch nth_append)
  qed
  moreover have "no_send_after_close (effects ?s')"
    using assms(1) by (simp add: eff no_send_after_close_append inv_mcc_def)
  ultimately show ?thesis using wf by (simp add: inv_mcc_def)
qed

lemma inv_mcc_try_send:
  assumes "inv_mcc s" and "map_of (clusterControllers s) name = Some ch"
  shows "\<exists>s'. try_send name' ch s = Inr s' \<and> inv_mcc s' \<and>
           clusterControllers s' = clusterControllers s \<and> assetsDir s' = assetsDir s \<and>
           length (chans s') = length (chans s) \<and>
           (\<forall>a. closed (chans s' ! a) = closed (chans s ! a)) \<and>
           (\<exists>ok. effects s' = effects s @ Send ch ok # (if ok then [] else [Log (BufferFull name')]))"
proof -
  from assms(1) have wf: "wf_mcc s" and cr: "closes_recorded s"
    and ns: "no_send_after_close (effects s)" by (simp_all add: inv_mcc_def)
  from wf_mccD [OF wf assms(2)] have lt: "ch < length (chans s)" and op: "\<not> closed (chans s ! ch)"
    by simp_all
  from op cr have nocl: "Close ch \<notin> set (effects s)" by (auto dest: closes_recordedD)
  show ?thesis
  proof (cases "buffered (chans s ! ch) < capacity (chans s ! ch)")
    case True
    let ?s' = "emit [Send ch True]
       (s\<lparr>chans := (chans s)[ch := (chans s ! ch)\<lparr>buffered := Suc (buffered (chans s ! ch))\<rparr>]\<rparr>)"
    have eq: "try_send name' ch s = Inr ?s'"
      using True by (simp add: try_send_tracked [OF wf assms(2)])
    have fl: "closed ((chans s)[ch := (chans s ! ch)\<lparr>buffered := Suc (buffered (chans s ! ch))\<rparr>] ! a)
                = closed (chans s ! a)" for a
      using lt by (cases "a = ch") simp_all
    have "closes_recorded ?s'"
      using cr by (auto intro!: closes_recordedI dest: closes_recordedD simp: fl)
    moreover have "no_send_after_close (effects ?s')"
      using ns nocl by (auto simp: no_send_after_close_append)
    moreover have "wf_mcc ?s'" using wf_mcc_buffered [OF wf assms(2) True] by simp
    ultimately have "inv_mcc ?s'" by (simp add: inv_mcc_def)
    then show ?thesis using fl by (intro exI [of _ ?s']) (auto simp: eq intro: exI [of _ True])
  next
    case False
    let ?s' = "emit [Send ch False, Log (BufferFull name')] s"
    have eq: "try_send name' ch s = Inr ?s'"
      using False by (simp add: try_send_tracked [OF wf assms(2)])
    have "closes_recorded ?s'"
      using cr by (auto intro!: closes_recordedI dest: closes_recordedD)
    moreover have "no_send_after_close (effects ?s')"
      using ns nocl by (auto simp: no_send_after_close_append)
    ultimately have "inv_mcc ?s'" using wf by (simp add: inv_mcc_def)
    then show ?thesis by (intro exI [of _ ?s']) (auto simp: eq intro: exI [of _ False])
  qed
qed

lemma inv_mcc_close_delete:
  assumes "inv_mcc s" and "map_of (clusterControllers s) name = Some ch"
  shows "inv_mcc (emit [Close ch]
           (s\<lparr>chans := (chans s)[ch := (chans s ! ch)\<lparr>closed := True\<rparr>],
              clusterControllers := AList.delete name (clusterControllers s)\<rparr>))"
    (is "inv_mcc ?s'")
proof -
  from assms(1) have wf: "wf_mcc s" and cr: "closes_recorded s"
    and ns: "no_send_after_close (effects s)" by (simp_all add: inv_mcc_def)
  from wf_mccD [OF wf assms(2)] have lt: "ch < length (chans s)" by simp
  have "wf_mcc ?s'" using wf_mcc_close_delete [OF wf assms(2)] by simp
  moreover have "closes_recorded ?s'"
  proof (rule closes_recordedI)
    fix a assume "Close a \<in> set (effects ?s')"
    then consider "a = ch" | "Close a \<in> set (effects s)" by auto
    then show "a < length (chans ?s') \<and> closed (chans ?s' ! a)"
    proof cases
      case 1 then show ?thesis using lt by simp
    next
      case 2
      with cr have "a < length (chans s) \<and> closed (chans s ! a)" by (auto dest: closes_recordedD)
      then show ?thesis using lt by (cases "a = ch") simp_all
    qed
  qed
  moreover have "no_send_after_close (effects ?s')"
    using ns by (simp add: no_send_after_close_append)
  ultimately show ?thesis by (simp add: inv_mcc_def)
qed

subsection \<open>The watch case and the first loop of a tick\<close>

lemma watch_step_delete:
  assumes "wf_mcc s" and "map_of (clusterControllers s) name = Some ch"
  shows "watch_step w name None s =
          Inr (emit [Close ch]
                (s\<lparr>chans := (chans s)[ch := (chans s ! ch)\<lparr>closed := True\<rparr>],
                   clusterControllers := AList.delete name (clusterControllers s)\<rparr>))"
  using assms(2) by (simp add: watch_step_def close_chan_tracked [OF assms] emit_def)

lemma inv_mcc_watch_step:
  assumes "inv_mcc s"
  shows "\<exists>s'. watch_step w name v s = Inr s' \<and> inv_mcc s'"
proof (cases "map_of (clusterControllers s) name")
  case (Some ch)
  from assms have wf: "wf_mcc s" by (simp add: inv_mcc_def)
  show ?thesis
  proof (cases v)
    case None
    with inv_mcc_close_delete [OF assms Some] show ?thesis
      by (simp only: watch_step_delete [OF wf Some] sum.inject) blast
  next
    case (Some bs)
    with \<open>map_of (clusterControllers s) name = Some ch\<close>
      inv_mcc_try_send [OF assms \<open>map_of (clusterControllers s) name = Some ch\<close>, of name]
    show ?thesis by (auto simp: watch_step_def)
  qed
next
  case None
  show ?thesis
  proof (cases "json_Unmarshal w v")
    case (Inl err)
    with None inv_mcc_emit [OF assms, of "[Log (UnmarshalError name err)]"] show ?thesis
      by (simp add: watch_step_def)
  next
    case (Inr cluster)
    obtain r s1 where ncc: "newClusterController w name cluster s = (r, s1)" by force
    with inv_mcc_newClusterController [OF assms, of w name cluster]
    have i1: "inv_mcc s1" by simp
    from newClusterController_quiet [of w name cluster s] ncc
    have reg1: "clusterControllers s1 = clusterControllers s" by auto
    show ?thesis
    proof (cases r)
      case (Inl err)
      with None Inr ncc inv_mcc_emit [OF i1, of "[Log (CreateError name err)]"] show ?thesis
        by (simp add: watch_step_def)
    next
      case (Inr cc)
      let ?s2 = "snd (start_worker name cc s1)"
      from None reg1 have n1: "map_of (clusterControllers s1) name = None" by simp
      have i2: "inv_mcc ?s2" by (rule inv_mcc_start_worker [OF i1 n1])
      have t2: "map_of (clusterControllers ?s2) name = Some (length (chans s1))"
        by (simp add: start_worker_eq update_conv')
      have "watch_step w name v s = try_send name (length (chans s1)) ?s2"
        using None \<open>json_Unmarshal w v = Inr cluster\<close> ncc Inr
        by (simp add: watch_step_def start_worker_eq)
      with inv_mcc_try_send [OF i2 t2, of name] show ?thesis by auto
    qed
  qed
qed

lemma grows_refl [simp]: "grows s s"
  by (simp add: grows_def)

lemma grows_trans: "grows s s1 \<Longrightarrow> grows s1 s2 \<Longrightarrow> grows s s2"
  unfolding grows_def by (elim conjE exE, intro conjI) auto

lemma grows_emit:
  "\<forall>e\<in>set es. \<not> is_Send e \<and> \<not> is_Close e \<Longrightarrow> grows s (emit es s)"
  by (simp add: grows_def)

lemma grows_newClusterController: "grows s (snd (newClusterController w name cluster s))"
  using newClusterController_quiet [of w name cluster s] by (auto intro: grows_emit)

lemma grows_start_worker:
  "map_of (clusterControllers s) name = None \<Longrightarrow> grows s (snd (start_worker name cc s))"
  by (auto simp: grows_def start_worker_eq update_conv' nth_append)

text \<open>One round of the first loop, whatever the factory answers.\<close>

lemma ensure_step:
  assumes "inv_mcc s" and "map_of (clusterControllers s) name = None"
  obtains (fail) err s1 where "newClusterController w name cluster s = (Inl err, s1)"
      "inv_mcc (emit [Log (CreateError name err)] s1)"
      "grows s (emit [Log (CreateError name err)] s1)"
      "clusterControllers (emit [Log (CreateError name err)] s1) = clusterControllers s"
    | (ok) cc s1 where "newClusterController w name cluster s = (Inr cc, s1)"
      "inv_mcc (snd (start_worker name cc s1))"
      "grows s (snd (start_worker name cc s1))"
      "map_of (clusterControllers (snd (start_worker name cc s1))) = (map_of (clusterControllers s))(name \<mapsto> length (chans s))"
proof -
  obtain r s1 where ncc: "newClusterController w name cluster s = (r, s1)" by force
  with inv_mcc_newClusterController [OF assms(1), of w name cluster]
    grows_newClusterController [of s w name cluster]
  have i1: "inv_mcc s1" and g1: "grows s s1" by simp_all
  from newClusterController_quiet [of w name cluster s] ncc
  have reg1: "clusterControllers s1 = clusterControllers s" and ch1: "chans s1 = chans s" by auto
  show thesis
  proof (cases r)
    case (Inl err)
    have "inv_mcc (emit [Log (CreateError name err)] s1)"
      by (rule inv_mcc_emit [OF i1]) simp
    moreover have "grows s (emit [Log (CreateError name err)] s1)"
      by (rule grows_trans [OF g1 grows_emit]) simp
    ultimately show thesis using fail ncc Inl reg1 by simp
  next
    case (Inr cc)
    from assms(2) reg1 have n1: "map_of (clusterControllers s1) name = None" by simp
    have "inv_mcc (snd (start_worker name cc s1))" by (rule inv_mcc_start_worker [OF i1 n1])
    moreover have "grows s (snd (start_worker name cc s1))"
      by (rule grows_trans [OF g1 grows_start_worker [OF n1]])
    moreover have "map_of (clusterControllers (snd (start_worker name cc s1)))
                     = (map_of (clusterControllers s))(name \<mapsto> length (chans s))"
      by (simp add: start_worker_eq update_conv' reg1 ch1)
    ultimately show thesis using ok ncc Inr by simp
  qed
qed

lemma ensure_workers_grows:
  "inv_mcc s \<Longrightarrow> inv_mcc (ensure_workers w defs ks s) \<and> grows s (ensure_workers w defs ks s)"
proof (induction ks arbitrary: s)
  case Nil
  then show ?case by simp
next
  case (Cons name rest)
  show ?case
  proof (cases "map_of defs name")
    case None
    with Cons show ?thesis by simp
  next
    case (Some cluster)
    show ?thesis
    proof (cases "map_of (clusterControllers s) name")
      case (Some ch)
      with \<open>map_of defs name = Some cluster\<close> Cons show ?thesis by simp
    next
      case None
      from Cons.prems None show ?thesis
      proof (cases rule: ensure_step [where w = w and cluster = cluster])
        case (fail err s1)
        with Cons.IH [OF fail(2)] None \<open>map_of defs name = Some cluster\<close>
        show ?thesis by (auto intro: grows_trans)
      next
        case (ok cc s1)
        with Cons.IH [OF ok(2)] None \<open>map_of defs name = Some cluster\<close>
        show ?thesis by (auto intro: grows_trans)
      qed
    qed
  qed
qed

lemma since_append: "effects s' = effects s @ es \<Longrightarrow> since s s' = es"
  by (simp add: since_def)

lemma grows_since: "grows s s' \<Longrightarrow> effects s' = effects s @ since s s'"
  by (auto simp: grows_def since_def)

lemma since_trans:
  "effects s1 = effects s @ es1 \<Longrightarrow> effects s2 = effects s1 @ es2 \<Longrightarrow>
   since s s2 = since s s1 @ since s1 s2"
  by (simp add: since_def)

lemma ensure_workers_Cons:
  "ensure_workers w defs (name # rest) s = ensure_workers w defs rest (ensure_one w defs name s)"
  by (simp add: ensure_one_def split: option.splits sum.splits prod.splits)

lemma newClusterController_fst:
  "assetsDir s1 = assetsDir s \<Longrightarrow>
   fst (newClusterController w name cluster s1) = fst (newClusterController w name cluster s)"
  by (simp add: newClusterController_def Let_def split: option.splits sum.splits)

lemma ensure_one_grows:
  assumes "inv_mcc s"
  shows "inv_mcc (ensure_one w defs name s) \<and> grows s (ensure_one w defs name s)"
  using ensure_workers_grows [OF assms, of w defs "[name]"]
  by (simp only: ensure_workers_Cons ensure_workers.simps)

text \<open>What the body does to the map, and that it calls the factory when it should.\<close>

lemma ensure_one_other:
  assumes "inv_mcc s" and "k \<noteq> name"
  shows "map_of (clusterControllers (ensure_one w defs name s)) k = map_of (clusterControllers s) k"
proof (cases "map_of defs name")
  case None
  then show ?thesis by (simp add: ensure_one_def)
next
  case (Some cluster)
  show ?thesis
  proof (cases "map_of (clusterControllers s) name")
    case (Some ch)
    with \<open>map_of defs name = Some cluster\<close> show ?thesis by (simp add: ensure_one_def)
  next
    case None
    from assms(1) None show ?thesis
    proof (cases rule: ensure_step [where w = w and cluster = cluster])
      case (fail err s1)
      with None \<open>map_of defs name = Some cluster\<close> show ?thesis by (simp add: ensure_one_def)
    next
      case (ok cc s1)
      with None \<open>map_of defs name = Some cluster\<close> assms(2) show ?thesis
        by (simp add: ensure_one_def)
    qed
  qed
qed

lemma ensure_one_self:
  assumes "inv_mcc s" and "map_of defs name = Some cluster"
    and "map_of (clusterControllers s) name = None"
  shows "MkdirAll (ForCluster (assetsDir s) name) perm_0700 \<in> set (since s (ensure_one w defs name s)) \<and>
         (map_of (clusterControllers (ensure_one w defs name s)) name = None
            \<longleftrightarrow> isl (fst (newClusterController w name cluster s))) \<and>
         (\<forall>err. fst (newClusterController w name cluster s) = Inl err \<longrightarrow>
            Log (CreateError name err) \<in> set (since s (ensure_one w defs name s)))"
proof -
  from newClusterController_quiet [of w name cluster s]
  obtain es where es: "snd (newClusterController w name cluster s) = emit es s"
    "MkdirAll (ForCluster (assetsDir s) name) perm_0700 \<in> set es" by blast
  from assms(1,3) show ?thesis
  proof (cases rule: ensure_step [where w = w and cluster = cluster])
    case (fail err s1)
    with es have "s1 = emit es s" by simp
    with fail assms(2,3) es(2) show ?thesis
      by (simp add: ensure_one_def since_def)
  next
    case (ok cc s1)
    with es have "s1 = emit es s" by simp
    with ok assms(2,3) es(2) show ?thesis
      by (simp add: ensure_one_def since_def start_worker_eq)
  qed
qed

lemma ensure_one_new:
  assumes "inv_mcc s" and "map_of (clusterControllers (ensure_one w defs name s)) k \<noteq> None"
  shows "map_of (clusterControllers s) k \<noteq> None \<or> (k = name \<and> map_of defs name \<noteq> None)"
proof (cases "k = name")
  case False
  with assms ensure_one_other [OF assms(1) False, of w defs] show ?thesis by simp
next
  case True
  with assms(2) show ?thesis by (cases "map_of defs name") (simp_all add: ensure_one_def)
qed

lemma ensure_workers_new:
  assumes "inv_mcc s" and "map_of (clusterControllers (ensure_workers w defs ks s)) k \<noteq> None"
  shows "map_of (clusterControllers s) k \<noteq> None \<or> (k \<in> set ks \<and> map_of defs k \<noteq> None)"
  using assms
proof (induction ks arbitrary: s)
  case Nil
  then show ?case by simp
next
  case (Cons name rest)
  from ensure_one_grows [OF Cons.prems(1), of w defs name]
  have i1: "inv_mcc (ensure_one w defs name s)" by simp
  have "map_of (clusterControllers (ensure_workers w defs rest (ensure_one w defs name s))) k \<noteq> None"
    using Cons.prems(2) unfolding ensure_workers_Cons .
  from Cons.IH [OF i1 this]
  have "map_of (clusterControllers (ensure_one w defs name s)) k \<noteq> None \<or>
        (k \<in> set rest \<and> map_of defs k \<noteq> None)" .
  with ensure_one_new [OF Cons.prems(1), of w defs name k] show ?case by auto
qed

lemma ensure_workers_attempts:
  assumes "inv_mcc s" and "k \<in> set ks" and "map_of defs k = Some c"
    and "map_of (clusterControllers s) k = None"
  shows "MkdirAll (ForCluster (assetsDir s) k) perm_0700
           \<in> set (since s (ensure_workers w defs ks s)) \<and>
         (map_of (clusterControllers (ensure_workers w defs ks s)) k = None
            \<longleftrightarrow> isl (fst (newClusterController w k c s))) \<and>
         (\<forall>err. fst (newClusterController w k c s) = Inl err \<longrightarrow>
            Log (CreateError k err) \<in> set (since s (ensure_workers w defs ks s)))"
  using assms(1,2,4)
proof (induction ks arbitrary: s)
  case Nil
  then show ?case by simp
next
  case (Cons name rest)
  let ?s1 = "ensure_one w defs name s"
  let ?s' = "ensure_workers w defs rest ?s1"
  from ensure_one_grows [OF Cons.prems(1), of w defs name]
  have i1: "inv_mcc ?s1" and g1: "grows s ?s1" by simp_all
  from ensure_workers_grows [OF i1, of w defs rest]
  have g2: "grows ?s1 ?s'" by simp
  from g1 have ad: "assetsDir ?s1 = assetsDir s" by (simp add: grows_def)
  have sn: "since s ?s' = since s ?s1 @ since ?s1 ?s'"
    by (rule since_trans [OF grows_since [OF g1] grows_since [OF g2]])
  show ?case
  proof (cases "k = name")
    case True
    from ensure_one_self [OF Cons.prems(1) assms(3) Cons.prems(3), of w] True
    have mk: "MkdirAll (ForCluster (assetsDir s) k) perm_0700 \<in> set (since s ?s1)"
      and r1: "map_of (clusterControllers ?s1) k = None
                 \<longleftrightarrow> isl (fst (newClusterController w k c s))"
      and lg: "\<forall>err. fst (newClusterController w k c s) = Inl err \<longrightarrow>
                 Log (CreateError k err) \<in> set (since s ?s1)"
      by simp_all
    have "map_of (clusterControllers ?s') k = None \<longleftrightarrow> isl (fst (newClusterController w k c s))"
    proof (cases "map_of (clusterControllers ?s1) k")
      case (Some a)
      with g2 have "map_of (clusterControllers ?s') k = Some a" by (simp add: grows_def)
      with Some r1 show ?thesis by simp
    next
      case None
      have "map_of (clusterControllers ?s') k = None"
      proof (cases "k \<in> set rest")
        case True
        from Cons.IH [OF i1 True None] None r1 show ?thesis
          by (simp add: newClusterController_fst [OF ad])
      next
        case False
        show ?thesis
        proof (rule ccontr)
          assume "map_of (clusterControllers ?s') k \<noteq> None"
          from ensure_workers_new [OF i1 this] None False show False by simp
        qed
      qed
      with None r1 show ?thesis by simp
    qed
    with mk lg sn show ?thesis by (simp only: ensure_workers_Cons) simp
  next
    case False
    with Cons.prems(2) have kr: "k \<in> set rest" by simp
    from ensure_one_other [OF Cons.prems(1) False, of w defs] Cons.prems(3)
    have n1: "map_of (clusterControllers ?s1) k = None" by simp
    from Cons.IH [OF i1 kr n1] sn show ?thesis
      by (simp only: ensure_workers_Cons) (simp add: ad newClusterController_fst [OF ad])
  qed
qed

subsection \<open>The second loop of a tick\<close>

lemma closes_refl [simp]: "closes s s"
  by (simp add: closes_def)

lemma closes_trans: "closes s s1 \<Longrightarrow> closes s1 s2 \<Longrightarrow> closes s s2"
  unfolding closes_def by (elim conjE exE, intro conjI) auto

lemma closes_since: "closes s s' \<Longrightarrow> effects s' = effects s @ since s s'"
  by (auto simp: closes_def since_def)

lemma terminated_props:
  assumes "inv_mcc s" and "map_of (clusterControllers s) name = Some ch"
  shows "inv_mcc (terminated name ch s)" and "closes s (terminated name ch s)"
    and "closed (chans (terminated name ch s) ! ch)"
    and "since s (terminated name ch s) = [Close ch]"
    and "clusterControllers (terminated name ch s) = AList.delete name (clusterControllers s)"
proof -
  from assms(1) have wf: "wf_mcc s" by (simp add: inv_mcc_def)
  from wf_mccD [OF wf assms(2)] have lt: "ch < length (chans s)" by simp
  show "inv_mcc (terminated name ch s)"
    unfolding terminated_def by (rule inv_mcc_close_delete [OF assms])
  have "closed ((chans s)[ch := (chans s ! ch)\<lparr>closed := True\<rparr>] ! a)" if "closed (chans s ! a)" for a
    using that lt by (cases "a = ch") simp_all
  then show "closes s (terminated name ch s)"
    by (simp add: closes_def terminated_def)
  show "closed (chans (terminated name ch s) ! ch)"
    using lt by (simp add: terminated_def)
  show "since s (terminated name ch s) = [Close ch]"
    by (simp add: terminated_def since_def)
  show "clusterControllers (terminated name ch s) = AList.delete name (clusterControllers s)"
    by (simp add: terminated_def)
qed

lemma emit_then_delete:
  "(emit es (s\<lparr>chans := h\<rparr>))\<lparr>clusterControllers := r\<rparr>
     = emit es (s\<lparr>chans := h, clusterControllers := r\<rparr>)"
  by (cases s) (simp add: emit_def)

lemma remove_lingering_stale:
  assumes "inv_mcc s" and "map_of (clusterControllers s) name = Some ch"
    and "map_of defs name = None"
  shows "remove_lingering defs (name # rest) s = remove_lingering defs rest (terminated name ch s)"
proof -
  from assms(1) have wf: "wf_mcc s" by (simp add: inv_mcc_def)
  show ?thesis
    using assms(2,3)
    by (simp add: close_chan_tracked [OF wf assms(2)] terminated_def emit_then_delete)
qed

lemma remove_lingering_keep:
  "map_of (clusterControllers s) name = None \<or> map_of defs name \<noteq> None \<Longrightarrow>
   remove_lingering defs (name # rest) s = remove_lingering defs rest s"
  by (auto split: option.splits)

lemma filter_delete_keys:
  "map_of defs name = None \<Longrightarrow>
   filter (\<lambda>(k, a). \<not> (k \<in> set rest \<and> map_of defs k = None)) (AList.delete name al)
     = filter (\<lambda>(k, a). \<not> (k \<in> set (name # rest) \<and> map_of defs k = None)) al"
  by (induction al) (auto simp: AList.delete_eq)

lemma filter_absent_key:
  assumes "map_of al name = None \<or> map_of defs name \<noteq> None"
  shows "filter (\<lambda>(k, a). \<not> (k \<in> set (name # rest) \<and> map_of defs k = None)) al
           = filter (\<lambda>(k, a). \<not> (k \<in> set rest \<and> map_of defs k = None)) al"
proof (rule filter_cong [OF refl])
  fix x assume x: "x \<in> set al"
  obtain k a where ka: "x = (k, a)" by (cases x)
  from x ka have "k \<in> fst ` set al" by force
  then have "map_of al k \<noteq> None" by (simp add: map_of_eq_None_iff)
  with assms ka
  show "(case x of (k, a) \<Rightarrow> \<not> (k \<in> set (name # rest) \<and> map_of defs k = None))
        = (case x of (k, a) \<Rightarrow> \<not> (k \<in> set rest \<and> map_of defs k = None))"
    by auto
qed

lemma remove_lingering_props:
  assumes "inv_mcc s"
  shows "\<exists>s'. remove_lingering defs ks s = Inr s' \<and> inv_mcc s' \<and> closes s s' \<and>
           clusterControllers s'
             = filter (\<lambda>(k, a). \<not> (k \<in> set ks \<and> map_of defs k = None)) (clusterControllers s) \<and>
           (\<forall>k a. map_of (clusterControllers s) k = Some a \<longrightarrow> k \<in> set ks \<longrightarrow>
                  map_of defs k = None \<longrightarrow>
                  Close a \<in> set (since s s') \<and> closed (chans s' ! a))"
  using assms
proof (induction ks arbitrary: s)
  case Nil
  then show ?case by simp
next
  case (Cons name rest)
  show ?case
  proof (cases "map_of (clusterControllers s) name = None \<or> map_of defs name \<noteq> None")
    case True
    from Cons.IH [OF Cons.prems] obtain s' where
      s': "remove_lingering defs rest s = Inr s'" "inv_mcc s'" "closes s s'"
      "clusterControllers s'
             = filter (\<lambda>(k, a). \<not> (k \<in> set rest \<and> map_of defs k = None)) (clusterControllers s)"
      "\<forall>k a. map_of (clusterControllers s) k = Some a \<longrightarrow> k \<in> set rest \<longrightarrow>
                  map_of defs k = None \<longrightarrow>
                  Close a \<in> set (since s s') \<and> closed (chans s' ! a)"
      by blast
    have "clusterControllers s'
             = filter (\<lambda>(k, a). \<not> (k \<in> set (name # rest) \<and> map_of defs k = None)) (clusterControllers s)"
      by (simp only: s'(4) filter_absent_key [OF True])
    moreover have "\<forall>k a. map_of (clusterControllers s) k = Some a \<longrightarrow> k \<in> set (name # rest) \<longrightarrow>
                  map_of defs k = None \<longrightarrow>
                  Close a \<in> set (since s s') \<and> closed (chans s' ! a)"
      using s'(5) True by auto
    ultimately show ?thesis
      using s'(1,2,3) by (simp only: remove_lingering_keep [OF True]) blast
  next
    case False
    then obtain ch where tr: "map_of (clusterControllers s) name = Some ch"
      and st: "map_of defs name = None" by auto
    let ?s1 = "terminated name ch s"
    note t = terminated_props [OF Cons.prems tr]
    from Cons.IH [OF t(1)] obtain s' where
      s': "remove_lingering defs rest ?s1 = Inr s'" "inv_mcc s'" "closes ?s1 s'"
      "clusterControllers s'
             = filter (\<lambda>(k, a). \<not> (k \<in> set rest \<and> map_of defs k = None)) (clusterControllers ?s1)"
      "\<forall>k a. map_of (clusterControllers ?s1) k = Some a \<longrightarrow> k \<in> set rest \<longrightarrow>
                  map_of defs k = None \<longrightarrow>
                  Close a \<in> set (since ?s1 s') \<and> closed (chans s' ! a)"
      by blast
    have sn: "since s s' = Close ch # since ?s1 s'"
      using since_trans [OF closes_since [OF t(2)] closes_since [OF s'(3)]] t(4) by simp
    have cl: "closes s s'" by (rule closes_trans [OF t(2) s'(3)])
    have reg: "clusterControllers s'
             = filter (\<lambda>(k, a). \<not> (k \<in> set (name # rest) \<and> map_of defs k = None)) (clusterControllers s)"
      by (simp only: s'(4) t(5) filter_delete_keys [OF st])
    have stale: "Close a \<in> set (since s s') \<and> closed (chans s' ! a)"
      if "map_of (clusterControllers s) k = Some a" "k \<in> set (name # rest)" "map_of defs k = None"
      for k a
    proof (cases "k = name")
      case True
      with that tr have "a = ch" by simp
      with t(3) s'(3) sn show ?thesis by (auto simp: closes_def)
    next
      case False
      with that have "map_of (clusterControllers ?s1) k = Some a" "k \<in> set rest"
        by (simp_all add: t(5))
      with s'(5) that(3) sn show ?thesis by simp
    qed
    show ?thesis
      using s'(1,2) cl reg stale
      by (simp only: remove_lingering_stale [OF Cons.prems tr st]) blast
  qed
qed

subsection \<open>The third loop of a tick\<close>

lemma pokes_refl [simp]: "pokes s s"
  by (simp add: pokes_def)

lemma pokes_trans: "pokes s s1 \<Longrightarrow> pokes s1 s2 \<Longrightarrow> pokes s s2"
  unfolding pokes_def by (elim conjE exE, intro conjI) auto

lemma pokes_since: "pokes s s' \<Longrightarrow> effects s' = effects s @ since s s'"
  by (auto simp: pokes_def since_def)

lemma poke_one:
  assumes "inv_mcc s" and "map_of (clusterControllers s) name = Some ch"
  obtains s1 where "try_send name ch s = Inr s1" "inv_mcc s1" "pokes s s1"
    "Send ch True \<in> set (since s s1) \<or> Send ch False \<in> set (since s s1)"
proof -
  from inv_mcc_try_send [OF assms, of name] obtain s1 ok where
    s1: "try_send name ch s = Inr s1" "inv_mcc s1"
      "clusterControllers s1 = clusterControllers s" "assetsDir s1 = assetsDir s"
      "length (chans s1) = length (chans s)"
      "\<forall>a. closed (chans s1 ! a) = closed (chans s ! a)"
      "effects s1 = effects s @ Send ch ok # (if ok then [] else [Log (BufferFull name)])"
    by blast
  from s1(3-7) have "pokes s s1" by (auto simp: pokes_def)
  moreover from s1(7) have "Send ch True \<in> set (since s s1) \<or> Send ch False \<in> set (since s s1)"
    by (cases ok) (simp_all add: since_def)
  ultimately show thesis using that s1(1,2) by blast
qed

lemma poke_all_props:
  assumes "inv_mcc s"
  shows "\<exists>s'. poke_all ks s = Inr s' \<and> inv_mcc s' \<and> pokes s s' \<and>
           (\<forall>k a. k \<in> set ks \<longrightarrow> map_of (clusterControllers s) k = Some a \<longrightarrow>
                  Send a True \<in> set (since s s') \<or> Send a False \<in> set (since s s'))"
  using assms
proof (induction ks arbitrary: s)
  case Nil
  then show ?case by simp
next
  case (Cons name rest)
  show ?case
  proof (cases "map_of (clusterControllers s) name")
    case None
    with Cons.IH [OF Cons.prems] show ?thesis by auto
  next
    case (Some ch)
    from Cons.prems Some obtain s1 where
      s1: "try_send name ch s = Inr s1" "inv_mcc s1" "pokes s s1"
        "Send ch True \<in> set (since s s1) \<or> Send ch False \<in> set (since s s1)"
      by (rule poke_one)
    from Cons.IH [OF s1(2)] obtain s' where
      s': "poke_all rest s1 = Inr s'" "inv_mcc s'" "pokes s1 s'"
        "\<forall>k a. k \<in> set rest \<longrightarrow> map_of (clusterControllers s1) k = Some a \<longrightarrow>
                  Send a True \<in> set (since s1 s') \<or> Send a False \<in> set (since s1 s')"
      by blast
    have sn: "since s s' = since s s1 @ since s1 s'"
      by (rule since_trans [OF pokes_since [OF s1(3)] pokes_since [OF s'(3)]])
    from s1(3) have reg: "clusterControllers s1 = clusterControllers s" by (simp add: pokes_def)
    have "Send a True \<in> set (since s s') \<or> Send a False \<in> set (since s s')"
      if "k \<in> set (name # rest)" "map_of (clusterControllers s) k = Some a" for k a
    proof (cases "k = name")
      case True
      with that Some have "a = ch" by simp
      with s1(4) sn show ?thesis by auto
    next
      case False
      with that s'(4) reg sn show ?thesis by auto
    qed
    moreover have "poke_all (name # rest) s = Inr s'" using Some s1(1) s'(1) by simp
    moreover have "pokes s s'" by (rule pokes_trans [OF s1(3) s'(3)])
    ultimately show ?thesis using s'(2) by blast
  qed
qed

subsection \<open>The whole tick\<close>

lemma set_range_keys [simp]: "set (range_keys rank m) = fst ` set m"
  by (simp add: range_keys_def dom_clearjunk)

lemma distinct_range_keys [simp]: "distinct (range_keys rank m)"
  by (simp add: range_keys_def)

lemma map_of_keys: "map_of m k \<noteq> None \<longleftrightarrow> k \<in> fst ` set m"
  by (simp add: map_of_eq_None_iff)

lemma tick_step_props:
  assumes "inv_mcc s" and "GetAll w = Inr defs"
  obtains s1 s2 s' where
    "tick_step w s = Inr s'"
    "s1 = ensure_workers w defs (range_keys (rangeRank w 0) defs) (emit [Log TickLine] s)"
    "inv_mcc s1" "grows (emit [Log TickLine] s) s1"
    "remove_lingering defs (range_keys (rangeRank w 1) (clusterControllers s1)) s1 = Inr s2"
    "inv_mcc s2" "closes s1 s2"
    "clusterControllers s2
       = filter (\<lambda>(k, a). map_of defs k \<noteq> None) (clusterControllers s1)"
    "\<forall>k a. map_of (clusterControllers s1) k = Some a \<longrightarrow> map_of defs k = None \<longrightarrow>
           Close a \<in> set (since s1 s2) \<and> closed (chans s2 ! a)"
    "inv_mcc s'" "pokes s2 s'"
    "\<forall>k a. map_of (clusterControllers s2) k = Some a \<longrightarrow>
           Send a True \<in> set (since s2 s') \<or> Send a False \<in> set (since s2 s')"
proof -
  let ?s0 = "emit [Log TickLine] s"
  let ?s1 = "ensure_workers w defs (range_keys (rangeRank w 0) defs) ?s0"
  have i0: "inv_mcc ?s0" by (rule inv_mcc_emit [OF assms(1)]) simp
  from ensure_workers_grows [OF i0] have i1: "inv_mcc ?s1" and g1: "grows ?s0 ?s1" by simp_all
  from remove_lingering_props [OF i1, of defs "range_keys (rangeRank w 1) (clusterControllers ?s1)"]
  obtain s2 where
    s2: "remove_lingering defs (range_keys (rangeRank w 1) (clusterControllers ?s1)) ?s1 = Inr s2"
      "inv_mcc s2" "closes ?s1 s2"
      "clusterControllers s2
         = filter (\<lambda>(k, a). \<not> (k \<in> set (range_keys (rangeRank w 1) (clusterControllers ?s1)) \<and>
                                 map_of defs k = None)) (clusterControllers ?s1)"
      "\<forall>k a. map_of (clusterControllers ?s1) k = Some a \<longrightarrow>
             k \<in> set (range_keys (rangeRank w 1) (clusterControllers ?s1)) \<longrightarrow>
             map_of defs k = None \<longrightarrow>
             Close a \<in> set (since ?s1 s2) \<and> closed (chans s2 ! a)"
    by blast
  have reg2: "clusterControllers s2
       = filter (\<lambda>(k, a). map_of defs k \<noteq> None) (clusterControllers ?s1)"
    unfolding s2(4) by (rule filter_cong [OF refl]) force
  have stale: "\<forall>k a. map_of (clusterControllers ?s1) k = Some a \<longrightarrow> map_of defs k = None \<longrightarrow>
           Close a \<in> set (since ?s1 s2) \<and> closed (chans s2 ! a)"
  proof (intro allI impI)
    fix k a assume ka: "map_of (clusterControllers ?s1) k = Some a" and d: "map_of defs k = None"
    from ka have "k \<in> fst ` set (clusterControllers ?s1)" by (simp add: map_of_keys [symmetric])
    with s2(5) ka d show "Close a \<in> set (since ?s1 s2) \<and> closed (chans s2 ! a)" by simp
  qed
  from poke_all_props [OF s2(2), of "range_keys (rangeRank w 2) (clusterControllers s2)"]
  obtain s' where
    s': "poke_all (range_keys (rangeRank w 2) (clusterControllers s2)) s2 = Inr s'"
      "inv_mcc s'" "pokes s2 s'"
      "\<forall>k a. k \<in> set (range_keys (rangeRank w 2) (clusterControllers s2)) \<longrightarrow>
             map_of (clusterControllers s2) k = Some a \<longrightarrow>
             Send a True \<in> set (since s2 s') \<or> Send a False \<in> set (since s2 s')"
    by blast
  have swept: "\<forall>k a. map_of (clusterControllers s2) k = Some a \<longrightarrow>
           Send a True \<in> set (since s2 s') \<or> Send a False \<in> set (since s2 s')"
  proof (intro allI impI)
    fix k a assume ka: "map_of (clusterControllers s2) k = Some a"
    then have "k \<in> fst ` set (clusterControllers s2)" by (simp add: map_of_keys [symmetric])
    with s'(4) ka show "Send a True \<in> set (since s2 s') \<or> Send a False \<in> set (since s2 s')"
      by simp
  qed
  have "tick_step w s = Inr s'"
    using assms(2) s2(1) s'(1) by (simp add: tick_step_def)
  then show thesis
    using that [of s' ?s1 s2] i1 g1 s2(1,2,3) reg2 stale s'(2,3) swept by blast
qed

lemma grows_quiet: "grows s s' \<Longrightarrow> \<forall>e\<in>set (since s s'). \<not> is_Send e \<and> \<not> is_Close e"
  by (auto simp: grows_def since_def)

lemma closes_quiet: "closes s s' \<Longrightarrow> \<forall>e\<in>set (since s s'). is_Close e"
  by (auto simp: closes_def since_def)

lemma pokes_quiet: "pokes s s' \<Longrightarrow> \<forall>e\<in>set (since s s'). \<not> is_Close e"
  by (auto simp: pokes_def since_def)

lemma tick_since:
  assumes "grows (emit [Log TickLine] s) s1" and "closes s1 s2" and "pokes s2 s'"
  shows "since s s' = Log TickLine # since (emit [Log TickLine] s) s1 @ since s1 s2 @ since s2 s'"
proof -
  from grows_since [OF assms(1)] closes_since [OF assms(2)] pokes_since [OF assms(3)]
  have "effects s' = effects s @ Log TickLine # since (emit [Log TickLine] s) s1 @ since s1 s2 @ since s2 s'"
    by simp
  then show ?thesis by (rule since_append)
qed

lemma map_of_filter_keys:
  "map_of (filter (\<lambda>(k, a). P k) al) k = (if P k then map_of al k else None)"
  by (induction al) auto

lemma fst_newClusterController_emit:
  "fst (newClusterController w name cluster (emit es s)) = fst (newClusterController w name cluster s)"
  by (rule newClusterController_fst) simp

subsection \<open>Closing every channel at the cancellation\<close>

lemma close_all_props:
  assumes "distinct ks"
    and "\<forall>k\<in>set ks. \<forall>a. map_of (clusterControllers s) k = Some a \<longrightarrow>
           a < length (chans s) \<and> \<not> closed (chans s ! a)"
    and "\<forall>k\<in>set ks. \<forall>k'\<in>set ks. \<forall>a. map_of (clusterControllers s) k = Some a \<longrightarrow>
           map_of (clusterControllers s) k' = Some a \<longrightarrow> k = k'"
  shows "\<exists>s'. close_all ks s = Inr s' \<and> closes s s' \<and>
           clusterControllers s' = clusterControllers s \<and>
           since s s' = map Close (List.map_filter (map_of (clusterControllers s)) ks) \<and>
           (\<forall>a. closed (chans s' ! a) \<longleftrightarrow>
                 closed (chans s ! a) \<or> a \<in> set (List.map_filter (map_of (clusterControllers s)) ks))"
  using assms
proof (induction ks arbitrary: s)
  case Nil
  then show ?case by (simp add: since_def)
next
  case (Cons name rest)
  show ?case
  proof (cases "map_of (clusterControllers s) name")
    case None
    from Cons.prems have "distinct rest"
      "\<forall>k\<in>set rest. \<forall>a. map_of (clusterControllers s) k = Some a \<longrightarrow>
           a < length (chans s) \<and> \<not> closed (chans s ! a)"
      "\<forall>k\<in>set rest. \<forall>k'\<in>set rest. \<forall>a. map_of (clusterControllers s) k = Some a \<longrightarrow>
           map_of (clusterControllers s) k' = Some a \<longrightarrow> k = k'"
      by simp_all
    from Cons.IH [OF this] None show ?thesis by simp
  next
    case (Some ch)
    let ?s1 = "emit [Close ch] (s\<lparr>chans := (chans s)[ch := (chans s ! ch)\<lparr>closed := True\<rparr>]\<rparr>)"
    from Cons.prems(2) Some have lt: "ch < length (chans s)" and op: "\<not> closed (chans s ! ch)"
      by simp_all
    have c1: "close_chan ch s = Inr ?s1" using lt op by (simp add: close_chan_def)
    have fl: "closed (chans ?s1 ! a) \<longleftrightarrow> closed (chans s ! a) \<or> a = ch" for a
      using lt by (cases "a = ch") simp_all
    have cl1: "closes s ?s1" using fl by (simp add: closes_def)
    have other: "a \<noteq> ch" if "k \<in> set rest" "map_of (clusterControllers s) k = Some a" for k a
    proof
      assume "a = ch"
      with that Some Cons.prems(3) have "k = name" by simp
      with that(1) Cons.prems(1) show False by simp
    qed
    have p2: "\<forall>k\<in>set rest. \<forall>a. map_of (clusterControllers ?s1) k = Some a \<longrightarrow>
           a < length (chans ?s1) \<and> \<not> closed (chans ?s1 ! a)"
    proof (intro ballI allI impI)
      fix k a assume k: "k \<in> set rest" and m: "map_of (clusterControllers ?s1) k = Some a"
      then have m': "map_of (clusterControllers s) k = Some a" by simp
      from other [OF k m'] have "a \<noteq> ch" .
      moreover from Cons.prems(2) k m' have "a < length (chans s) \<and> \<not> closed (chans s ! a)"
        by simp
      ultimately show "a < length (chans ?s1) \<and> \<not> closed (chans ?s1 ! a)" by (simp add: fl)
    qed
    have p3: "\<forall>k\<in>set rest. \<forall>k'\<in>set rest. \<forall>a. map_of (clusterControllers ?s1) k = Some a \<longrightarrow>
           map_of (clusterControllers ?s1) k' = Some a \<longrightarrow> k = k'"
      using Cons.prems(3) by simp
    from Cons.prems(1) have "distinct rest" by simp
    from Cons.IH [OF this p2 p3] obtain s' where
      s': "close_all rest ?s1 = Inr s'" "closes ?s1 s'"
        "clusterControllers s' = clusterControllers ?s1"
        "since ?s1 s' = map Close (List.map_filter (map_of (clusterControllers ?s1)) rest)"
        "\<forall>a. closed (chans s' ! a) \<longleftrightarrow>
              closed (chans ?s1 ! a) \<or> a \<in> set (List.map_filter (map_of (clusterControllers ?s1)) rest)"
      by blast
    have "close_all (name # rest) s = Inr s'" using Some c1 s'(1) by simp
    moreover have "closes s s'" by (rule closes_trans [OF cl1 s'(2)])
    moreover have "since s s' = map Close (List.map_filter (map_of (clusterControllers s)) (name # rest))"
      using since_trans [OF closes_since [OF cl1] closes_since [OF s'(2)]] s'(4) Some
      by (simp add: since_def)
    moreover have "\<forall>a. closed (chans s' ! a) \<longleftrightarrow>
              closed (chans s ! a) \<or> a \<in> set (List.map_filter (map_of (clusterControllers s)) (name # rest))"
      using s'(5) fl Some by auto
    ultimately show ?thesis using s'(3) by simp
  qed
qed

lemma set_map_filter:
  "set (List.map_filter f xs) = {y. \<exists>x\<in>set xs. f x = Some y}"
  by (induction xs) (auto split: option.splits)

lemma set_map_filter_map_of:
  "distinct (map fst al) \<Longrightarrow> set ks = fst ` set al \<Longrightarrow>
   set (List.map_filter (map_of al) ks) = snd ` set al"
  by (force simp: set_map_filter dest: map_of_SomeD)

lemma distinct_map_filter_inj:
  assumes "distinct ks"
    and "\<forall>k\<in>set ks. \<forall>k'\<in>set ks. \<forall>a. f k = Some a \<longrightarrow> f k' = Some a \<longrightarrow> k = k'"
  shows "distinct (List.map_filter f ks)"
  using assms
proof (induction ks)
  case Nil
  then show ?case by simp
next
  case (Cons k ks)
  then have "distinct (List.map_filter f ks)" by simp
  moreover have "a \<notin> set (List.map_filter f ks)" if "f k = Some a" for a
  proof
    assume "a \<in> set (List.map_filter f ks)"
    then obtain k' where "k' \<in> set ks" "f k' = Some a" by (auto simp: set_map_filter)
    with Cons.prems that show False by auto
  qed
  ultimately show ?case by (cases "f k") simp_all
qed

lemma shutdown_props:
  assumes "wf_mcc s"
  shows "\<exists>s'. shutdown w s = Inr s' \<and>
           assetsDir s' = assetsDir s \<and> length (chans s') = length (chans s) \<and>
           clusterControllers s' = clusterControllers s \<and>
           effects s' = effects s @ Log Stopping #
             map Close (List.map_filter (map_of (clusterControllers s))
                          (range_keys (rangeRank w 3) (clusterControllers s))) \<and>
           distinct (List.map_filter (map_of (clusterControllers s))
                          (range_keys (rangeRank w 3) (clusterControllers s))) \<and>
           set (List.map_filter (map_of (clusterControllers s))
                          (range_keys (rangeRank w 3) (clusterControllers s)))
             = snd ` set (clusterControllers s) \<and>
           (\<forall>a. closed (chans s' ! a) \<longleftrightarrow>
                 closed (chans s ! a) \<or> a \<in> snd ` set (clusterControllers s))"
proof -
  let ?s0 = "emit [Log Stopping] s"
  let ?ks = "range_keys (rangeRank w 3) (clusterControllers s)"
  let ?as = "List.map_filter (map_of (clusterControllers s)) ?ks"
  have d: "distinct ?ks" by simp
  have op: "\<forall>k\<in>set ?ks. \<forall>a. map_of (clusterControllers ?s0) k = Some a \<longrightarrow>
           a < length (chans ?s0) \<and> \<not> closed (chans ?s0 ! a)"
    using wf_mccD [OF assms] by simp
  have inj: "\<forall>k\<in>set ?ks. \<forall>k'\<in>set ?ks. \<forall>a. map_of (clusterControllers ?s0) k = Some a \<longrightarrow>
           map_of (clusterControllers ?s0) k' = Some a \<longrightarrow> k = k'"
    using wf_mcc_inj [OF assms] by simp
  from close_all_props [OF d op inj] obtain s' where
    s': "close_all ?ks ?s0 = Inr s'" "closes ?s0 s'"
      "clusterControllers s' = clusterControllers s"
      "since ?s0 s' = map Close ?as"
      "\<forall>a. closed (chans s' ! a) \<longleftrightarrow> closed (chans s ! a) \<or> a \<in> set ?as"
    by auto
  from assms have dk: "distinct (map fst (clusterControllers s))" by (simp add: wf_mcc_def)
  have sa: "set ?as = snd ` set (clusterControllers s)"
    by (rule set_map_filter_map_of [OF dk]) simp
  have da: "distinct ?as"
  proof (rule distinct_map_filter_inj [OF d, of "map_of (clusterControllers s)"], intro ballI allI impI)
    fix k k' a
    assume "map_of (clusterControllers s) k = Some a" "map_of (clusterControllers s) k' = Some a"
    then show "k = k'" by (rule wf_mcc_inj [OF assms])
  qed
  from s'(2) have cl: "assetsDir s' = assetsDir s" "length (chans s') = length (chans s)"
    by (simp_all add: closes_def)
  have sn: "effects s' = effects s @ Log Stopping # map Close ?as"
    using closes_since [OF s'(2)] s'(4) by simp
  have "shutdown w s = Inr s'" using s'(1) by (simp add: shutdown_def)
  with cl s'(3) sn da sa s'(5) show ?thesis by simp
qed

subsection \<open>The invariant along a run\<close>

lemma inv_mcc_start:
  "inv_mcc \<lparr>assetsDir = d, clusterControllers = [], chans = [], effects = []\<rparr>"
  by (simp add: inv_mcc_def wf_mcc_def closes_recorded_def)

lemma inv_mcc_tick_step:
  assumes "inv_mcc s"
  shows "\<exists>s'. tick_step w s = Inr s' \<and> inv_mcc s'"
proof (cases "GetAll w")
  case (Inl err)
  have "inv_mcc (emit [Log TickLine, Log (GetAllError err)] s)"
    by (rule inv_mcc_emit [OF assms]) simp
  with Inl show ?thesis by (simp add: tick_step_def emit_emit)
next
  case (Inr defs)
  show ?thesis
    by (rule tick_step_props [OF assms Inr]) blast
qed

lemma inv_mcc_worker_receive:
  assumes "inv_mcc s"
  shows "inv_mcc (worker_receive a s)"
proof (cases "a < length (chans s) \<and> 0 < buffered (chans s ! a)")
  case False
  then have "worker_receive a s = s" by (auto simp: worker_receive_def)
  with assms show ?thesis by simp
next
  case True
  define h where "h = (chans s)[a := (chans s ! a)\<lparr>buffered := buffered (chans s ! a) - 1\<rparr>]"
  have len: "length h = length (chans s)" by (simp add: h_def)
  have fl: "closed (h ! b) = closed (chans s ! b)" "capacity (h ! b) = capacity (chans s ! b)"
    "buffered (h ! b) \<le> buffered (chans s ! b)" for b
    using True by (cases "b = a"; simp add: h_def)+
  have eq: "worker_receive a s = s\<lparr>chans := h\<rparr>"
    using True by (simp add: worker_receive_def h_def)
  from assms have wf: "wf_mcc s" and cr: "closes_recorded s"
    and ns: "no_send_after_close (effects s)" by (simp_all add: inv_mcc_def)
  have "wf_mcc (s\<lparr>chans := h\<rparr>)"
    unfolding wf_mcc_def
  proof (intro conjI ballI)
    fix x assume x: "x \<in> set (clusterControllers (s\<lparr>chans := h\<rparr>))"
    obtain k b where kb: "x = (k, b)" by (cases x)
    with x wf have "map_of (clusterControllers s) k = Some b" by (simp add: wf_mcc_def)
    from wf_mccD [OF wf this] fl(3) [of b]
    show "case x of (name, a) \<Rightarrow>
            a < length (chans (s\<lparr>chans := h\<rparr>)) \<and> \<not> closed (chans (s\<lparr>chans := h\<rparr>) ! a) \<and>
            capacity (chans (s\<lparr>chans := h\<rparr>) ! a) = clusterControllerNotificationBuffer \<and>
            buffered (chans (s\<lparr>chans := h\<rparr>) ! a) \<le> capacity (chans (s\<lparr>chans := h\<rparr>) ! a)"
      by (simp add: kb fl(1,2) len)
  qed (use wf in \<open>simp_all add: wf_mcc_def\<close>)
  moreover have "closes_recorded (s\<lparr>chans := h\<rparr>)"
    using cr by (auto intro!: closes_recordedI dest: closes_recordedD simp: fl(1) len)
  ultimately show ?thesis using ns by (simp add: eq inv_mcc_def)
qed

lemma no_send_after_close_shutdown:
  assumes "inv_mcc s"
  shows "\<exists>s'. shutdown w s = Inr s' \<and> no_send_after_close (effects s')"
proof -
  from assms have wf: "wf_mcc s" and ns: "no_send_after_close (effects s)"
    by (simp_all add: inv_mcc_def)
  from shutdown_props [OF wf, of w] obtain s' as where
    s': "shutdown w s = Inr s'" "effects s' = effects s @ Log Stopping # map Close as"
    by blast
  have q: "\<forall>e\<in>set (Log Stopping # map Close as). \<not> is_Send e" by auto
  from ns quiet_no_send [OF q] no_send_after_close_quiet [OF q]
  have "no_send_after_close (effects s')"
    by (simp only: s'(2) no_send_after_close_append) blast
  with s'(1) show ?thesis by blast
qed

lemma loop_history:
  assumes "inv_mcc s"
  shows "\<exists>st s'. loop evs s = Inr (st, s') \<and> no_send_after_close (effects s') \<and>
           (st = Waiting \<longrightarrow> inv_mcc s')"
  using assms
proof (induction evs arbitrary: s)
  case Nil
  then show ?case by (simp add: inv_mcc_def)
next
  case (Cons ev evs)
  show ?case
  proof (cases ev)
    case (WatchResp w name v)
    from inv_mcc_watch_step [OF Cons.prems, of w name v] obtain s1 where
      "watch_step w name v s = Inr s1" "inv_mcc s1" by blast
    with Cons.IH [OF this(2)] WatchResp show ?thesis by simp
  next
    case (Ticker w)
    from inv_mcc_tick_step [OF Cons.prems, of w] obtain s1 where
      "tick_step w s = Inr s1" "inv_mcc s1" by blast
    with Cons.IH [OF this(2)] Ticker show ?thesis by simp
  next
    case (CtxDone w)
    from no_send_after_close_shutdown [OF Cons.prems, of w] obtain s1 where
      "shutdown w s = Inr s1" "no_send_after_close (effects s1)" by blast
    with CtxDone show ?thesis by simp
  next
    case (Received a)
    with Cons.IH [OF inv_mcc_worker_receive [OF Cons.prems, of a]] show ?thesis by simp
  qed
qed

subsection \<open>Paths, the permission and a failing factory\<close>

lemma split_path_not_Nil [simp]: "split_path p \<noteq> []"
  by (induction p) (auto split: list.splits)

lemma split_path_append:
  "split_path (xs @ CHR ''/'' # ys) = split_path xs @ split_path ys"
  by (induction xs) (auto split: list.splits)

lemma path_rooted_append: "dir \<noteq> [] \<Longrightarrow> path_rooted (dir @ p) = path_rooted dir"
  by (cases dir) (simp_all add: path_rooted_def)

lemma join_elements_snoc_not_Nil: "e \<noteq> [] \<Longrightarrow> join_elements (es @ [e]) \<noteq> []"
  by (induction es rule: join_elements.induct) auto

lemma path_elements_log:
  assumes "dir \<noteq> []"
  shows "path_elements (dir @ ''/kismatic.log'') = path_elements dir @ [''kismatic.log'']"
proof -
  have s: "split_path ''kismatic.log'' = [''kismatic.log'']" by simp
  have "split_path (dir @ ''/kismatic.log'') = split_path dir @ [''kismatic.log'']"
    using split_path_append [of dir "''kismatic.log''"] s by simp
  moreover have "clean_step r ''kismatic.log'' st = ''kismatic.log'' # st" for r st
    by (simp add: clean_step_def)
  ultimately show ?thesis
    using path_rooted_append [OF assms, of "''/kismatic.log''"]
    by (simp add: path_elements_def)
qed

lemma filepath_Join_log:
  assumes "dir \<noteq> []"
  shows "filepath_Join dir ''kismatic.log'' =
           (if path_rooted dir then ''/'' else []) @
           join_elements (path_elements dir @ [''kismatic.log''])"
proof -
  have ne: "join_elements (path_elements dir @ [''kismatic.log'']) \<noteq> []"
    by (rule join_elements_snoc_not_Nil) simp
  have "filepath_Join dir ''kismatic.log'' = filepath_Clean (dir @ ''/kismatic.log'')"
    using assms by (simp add: filepath_Join_def)
  also have "\<dots> = (if path_rooted dir then ''/'' else []) @
           join_elements (path_elements dir @ [''kismatic.log''])"
    using ne path_rooted_append [OF assms, of "''/kismatic.log''"]
    by (simp add: filepath_Clean_def path_elements_log [OF assms] Let_def)
  finally show ?thesis .
qed

lemma ForCluster_not_Nil [simp]: "ForCluster root name \<noteq> []"
  by (simp add: ForCluster_def)

lemma ForCluster_inj: "ForCluster root name = ForCluster root name' \<longleftrightarrow> name = name'"
  by (simp add: ForCluster_def)

lemma perm_0700_bits: "perm_0700 = 448" "and perm_0700 63 = 0" "and perm_0700 448 = 448"
  by (simp_all add: perm_0700_def)

lemma newClusterController_assetsDir [simp]:
  "assetsDir (snd (newClusterController w name cluster s)) = assetsDir s"
  by (simp add: newClusterController_def Let_def split: option.splits sum.splits)

lemma watch_step_factory_fails:
  assumes "map_of (clusterControllers s) name = None" and "json_Unmarshal w v = Inr cluster"
    and "fst (newClusterController w name cluster s) = Inl e"
  shows "watch_step w name v s =
           Inr (emit [Log (CreateError name e)] (snd (newClusterController w name cluster s)))"
proof -
  obtain r s1 where n: "newClusterController w name cluster s = (r, s1)" by force
  with assms(3) have "r = Inl e" by simp
  with assms(1,2) n show ?thesis by (simp add: watch_step_def)
qed

section \<open>The claims\<close>

text \<open>
  C1. A tick whose snapshot fetch succeeds ends with every name of the map defined in
  that snapshot; and every name that was in the map before the tick and is not in the
  snapshot is gone from the map, its channel closed, the close being one of the effects
  of that same tick. (The state before the tick is one the loop can be in: it satisfies
  the invariant \<open>inv_mcc\<close>, which the empty start state has and every step keeps.)
\<close>

theorem tick_registry_within_snapshot:
  assumes "inv_mcc s" and "GetAll w = Inr defs"
  shows "\<exists>s'. tick_step w s = Inr s' \<and>
           (\<forall>k. map_of (clusterControllers s') k \<noteq> None \<longrightarrow> map_of defs k \<noteq> None) \<and>
           (\<forall>k a. map_of (clusterControllers s) k = Some a \<longrightarrow> map_of defs k = None \<longrightarrow>
                  map_of (clusterControllers s') k = None \<and>
                  a < length (chans s') \<and> closed (chans s' ! a) \<and>
                  Close a \<in> set (since s s'))"
proof -
  obtain s1 s2 s' where
    t: "tick_step w s = Inr s'"
       "grows (emit [Log TickLine] s) s1"
       "closes s1 s2"
       "clusterControllers s2 = filter (\<lambda>(k, a). map_of defs k \<noteq> None) (clusterControllers s1)"
       "\<forall>k a. map_of (clusterControllers s1) k = Some a \<longrightarrow> map_of defs k = None \<longrightarrow>
           Close a \<in> set (since s1 s2) \<and> closed (chans s2 ! a)"
       "pokes s2 s'"
    by (rule tick_step_props [OF assms])
  from assms(1) have wf: "wf_mcc s" by (simp add: inv_mcc_def)
  have reg': "map_of (clusterControllers s') k = (if map_of defs k \<noteq> None then map_of (clusterControllers s1) k else None)" for k
    using t(6) by (simp add: pokes_def t(4) map_of_filter_keys)
  have sn: "since s s' = Log TickLine # since (emit [Log TickLine] s) s1 @ since s1 s2 @ since s2 s'"
    by (rule tick_since [OF t(2,3,6)])
  have "map_of (clusterControllers s') k = None \<and> a < length (chans s') \<and>
        closed (chans s' ! a) \<and> Close a \<in> set (since s s')"
    if ka: "map_of (clusterControllers s) k = Some a" and d: "map_of defs k = None" for k a
  proof -
    from t(2) ka have k1: "map_of (clusterControllers s1) k = Some a" by (simp add: grows_def)
    with t(5) d have c2: "Close a \<in> set (since s1 s2)" "closed (chans s2 ! a)" by simp_all
    from wf_mccD [OF wf ka] have "a < length (chans s)" by simp
    with t(2,3,6) have "a < length (chans s')" by (simp add: grows_def closes_def pokes_def)
    moreover from c2(2) t(6) have "closed (chans s' ! a)" by (simp add: pokes_def)
    ultimately show ?thesis using d c2(1) by (simp add: reg' sn)
  qed
  then have "\<forall>k a. map_of (clusterControllers s) k = Some a \<longrightarrow> map_of defs k = None \<longrightarrow>
                  map_of (clusterControllers s') k = None \<and>
                  a < length (chans s') \<and> closed (chans s' ! a) \<and>
                  Close a \<in> set (since s s')" by blast
  moreover have "\<forall>k. map_of (clusterControllers s') k \<noteq> None \<longrightarrow> map_of defs k \<noteq> None"
    by (simp add: reg')
  ultimately show ?thesis using t(1) by blast
qed

theorem tick_registry_within_snapshot_witness:
  "inv_mcc s_ab \<and>
   GetAll w_bc = Inr [(''c'', \<lparr>Spec = ''z''\<rparr>), (''b'', \<lparr>Spec = ''y''\<rparr>)] \<and>
   map_of (clusterControllers s_ab) ''a'' = Some 0 \<and>
   map_of [(''c'', \<lparr>Spec = ''z''\<rparr>), (''b'', \<lparr>Spec = ''y''\<rparr>)] ''a'' = None \<and>
   tick_step w_bc s_ab = Inr s_ab_ticked \<and>
   map_of (clusterControllers s_ab_ticked) ''a'' = None \<and>
   closed (chans s_ab_ticked ! 0) \<and>
   Close 0 \<in> set (since s_ab s_ab_ticked)"
proof -
  have h1: "inv_mcc s_ab" by code_simp
  have h2: "GetAll w_bc = Inr [(''c'', \<lparr>Spec = ''z''\<rparr>), (''b'', \<lparr>Spec = ''y''\<rparr>)]"
    by (simp add: w_bc_def)
  have h3: "map_of (clusterControllers s_ab) ''a'' = Some 0" by (simp add: s_ab_def)
  have h4: "map_of [(''c'', \<lparr>Spec = ''z''\<rparr>), (''b'', \<lparr>Spec = ''y''\<rparr>)] ''a'' = None" by simp
  have e: "tick_step w_bc s_ab = Inr s_ab_ticked" by code_simp
  from tick_registry_within_snapshot [OF h1 h2] e
  have "\<forall>k a. map_of (clusterControllers s_ab) k = Some a \<longrightarrow>
          map_of [(''c'', \<lparr>Spec = ''z''\<rparr>), (''b'', \<lparr>Spec = ''y''\<rparr>)] k = None \<longrightarrow>
          map_of (clusterControllers s_ab_ticked) k = None \<and>
          a < length (chans s_ab_ticked) \<and> closed (chans s_ab_ticked ! a) \<and>
          Close a \<in> set (since s_ab s_ab_ticked)"
    by auto
  with h3 h4 have "map_of (clusterControllers s_ab_ticked) ''a'' = None \<and>
     closed (chans s_ab_ticked ! 0) \<and> Close 0 \<in> set (since s_ab s_ab_ticked)"
    by blast
  with h1 h2 h3 h4 e show ?thesis by blast
qed

text \<open>
  C2. When the snapshot fetch of a tick fails, the tick logs the error and does nothing
  else: the state after it is the state before it with the two log lines \<open>tick\<close> and
  \<open>failed to get all the clusters\<close> added, so the map and every channel are as they
  were, nothing is made, started, closed or sent, and the loop goes on to the next event.
\<close>

theorem tick_skipped_when_GetAll_fails:
  assumes "GetAll w = Inl err"
  shows "tick_step w s = Inr (emit [Log TickLine, Log (GetAllError err)] s) \<and>
         clusterControllers (emit [Log TickLine, Log (GetAllError err)] s) = clusterControllers s \<and>
         chans (emit [Log TickLine, Log (GetAllError err)] s) = chans s \<and>
         loop (Ticker w # evs) s = loop evs (emit [Log TickLine, Log (GetAllError err)] s)"
  using assms by (simp add: tick_step_def emit_emit)

theorem tick_skipped_when_GetAll_fails_witness:
  "GetAll w_down = Inl ''store down'' \<and>
   tick_step w_down s_ab = Inr (emit [Log TickLine, Log (GetAllError ''store down'')] s_ab) \<and>
   clusterControllers (emit [Log TickLine, Log (GetAllError ''store down'')] s_ab)
     = [(''a'', 0), (''b'', 1)] \<and>
   chans (emit [Log TickLine, Log (GetAllError ''store down'')] s_ab)
     = [open_chan 0, open_chan 4] \<and>
   loop [Ticker w_down] s_ab
     = Inr (Waiting, emit [Log TickLine, Log (GetAllError ''store down'')] s_ab)"
  using tick_skipped_when_GetAll_fails [of w_down "''store down''" s_ab "[]"]
  by (simp add: w_down_def w_ok_def s_ab_def)

text \<open>
  C3. From a state the loop can be in, a run over any events ends without a panic (so
  no send was made on a closed channel and no channel was closed twice), and in the
  effects of the whole run no send on a channel comes after the close of that channel,
  whether the close came from a watch deletion, from a tick or from the cancellation.
  Within one tick the effects are, in this order, those of the first loop (no send, no
  close), the closes of the second loop, and the sends of the third; a watch deletion
  has the close as its only effect.
\<close>

theorem no_send_after_close_run:
  assumes "inv_mcc s"
  shows "(\<exists>st s'. Run evs s = Inr (st, s') \<and> no_send_after_close (effects s')) \<and>
         (GetAll w = Inr defs \<longrightarrow>
            (\<exists>s' es cs ps. tick_step w s = Inr s' \<and>
               effects s' = effects s @ Log TickLine # es @ cs @ ps \<and>
               list_all (\<lambda>e. \<not> is_Send e \<and> \<not> is_Close e) es \<and>
               list_all is_Close cs \<and>
               list_all (\<lambda>e. \<not> is_Close e) ps)) \<and>
         (map_of (clusterControllers s) name = Some ch \<longrightarrow>
            (\<exists>s'. watch_step w name None s = Inr s' \<and> effects s' = effects s @ [Close ch]))"
proof (intro conjI impI)
  have "inv_mcc (emit [Log Started] s)" by (rule inv_mcc_emit [OF assms]) simp
  from loop_history [OF this, of evs]
  show "\<exists>st s'. Run evs s = Inr (st, s') \<and> no_send_after_close (effects s')"
    by (auto simp: Run_def)
next
  assume g: "GetAll w = Inr defs"
  obtain s1 s2 s' where
    t: "tick_step w s = Inr s'" "grows (emit [Log TickLine] s) s1" "closes s1 s2" "pokes s2 s'"
    by (rule tick_step_props [OF assms g])
  let ?es = "since (emit [Log TickLine] s) s1" and ?cs = "since s1 s2" and ?ps = "since s2 s'"
  from grows_since [OF t(2)] closes_since [OF t(3)] pokes_since [OF t(4)]
  have "effects s' = effects s @ Log TickLine # ?es @ ?cs @ ?ps" by simp
  moreover from grows_quiet [OF t(2)]
  have "list_all (\<lambda>e. \<not> is_Send e \<and> \<not> is_Close e) ?es" by (simp add: list_all_iff)
  moreover from closes_quiet [OF t(3)] have "list_all is_Close ?cs" by (simp add: list_all_iff)
  moreover from pokes_quiet [OF t(4)] have "list_all (\<lambda>e. \<not> is_Close e) ?ps"
    by (simp add: list_all_iff)
  ultimately show "\<exists>s' es cs ps. tick_step w s = Inr s' \<and>
               effects s' = effects s @ Log TickLine # es @ cs @ ps \<and>
               list_all (\<lambda>e. \<not> is_Send e \<and> \<not> is_Close e) es \<and>
               list_all is_Close cs \<and>
               list_all (\<lambda>e. \<not> is_Close e) ps"
    using t(1) by blast
next
  assume tr: "map_of (clusterControllers s) name = Some ch"
  from assms have wf: "wf_mcc s" by (simp add: inv_mcc_def)
  show "\<exists>s'. watch_step w name None s = Inr s' \<and> effects s' = effects s @ [Close ch]"
    by (simp add: watch_step_delete [OF wf tr])
qed

theorem no_send_after_close_run_witness:
  "inv_mcc s_a \<and>
   Run evs_a s_a = Inr (Returned, s_a_run) \<and>
   no_send_after_close (effects s_a_run) \<and>
   GetAll w_bc = Inr [(''c'', \<lparr>Spec = ''z''\<rparr>), (''b'', \<lparr>Spec = ''y''\<rparr>)] \<and>
   tick_step w_bc s_a = Inr s_a_ticked \<and>
   map_of (clusterControllers s_a) ''a'' = Some 0 \<and>
   (\<exists>s'. watch_step w_bc ''a'' None s_a = Inr s' \<and> effects s' = effects s_a @ [Close 0])"
proof -
  have h: "inv_mcc s_a" by code_simp
  have g: "GetAll w_bc = Inr [(''c'', \<lparr>Spec = ''z''\<rparr>), (''b'', \<lparr>Spec = ''y''\<rparr>)]"
    by (simp add: w_bc_def)
  have m: "map_of (clusterControllers s_a) ''a'' = Some 0" by (simp add: s_a_def)
  have e: "Run evs_a s_a = Inr (Returned, s_a_run)" by code_simp
  have t: "tick_step w_bc s_a = Inr s_a_ticked" by code_simp
  note inst = no_send_after_close_run [OF h, of evs_a w_bc
      "[(''c'', \<lparr>Spec = ''z''\<rparr>), (''b'', \<lparr>Spec = ''y''\<rparr>)]" "''a''" 0]
  from inst e have n: "no_send_after_close (effects s_a_run)" by auto
  from inst m have d: "\<exists>s'. watch_step w_bc ''a'' None s_a = Inr s' \<and> effects s' = effects s_a @ [Close 0]"
    by blast
  from h e n g t m d show ?thesis by blast
qed

text \<open>
  C4, as the code has it. On the cancellation the loop logs, closes the channel of every
  entry of the map, each exactly once and with no other effect, and returns; the events
  that follow are not read. The map itself is left as it was: the entries stay, now
  referring to closed channels.
\<close>

theorem shutdown_closes_all:
  assumes "wf_mcc s"
  shows "\<exists>s'. shutdown w s = Inr s' \<and>
           loop (CtxDone w # evs) s = Inr (Returned, s') \<and>
           clusterControllers s' = clusterControllers s \<and>
           (\<forall>k a. map_of (clusterControllers s) k = Some a \<longrightarrow>
                  closed (chans s' ! a) \<and> Close a \<in> set (since s s')) \<and>
           distinct (since s s') \<and>
           list_all (\<lambda>e. e = Log Stopping \<or> is_Close e) (since s s')"
proof -
  let ?as = "List.map_filter (map_of (clusterControllers s))
               (range_keys (rangeRank w 3) (clusterControllers s))"
  from shutdown_props [OF assms, of w] obtain s' where
    s': "shutdown w s = Inr s'" "clusterControllers s' = clusterControllers s"
      "effects s' = effects s @ Log Stopping # map Close ?as"
      "distinct ?as" "set ?as = snd ` set (clusterControllers s)"
      "\<forall>a. closed (chans s' ! a) \<longleftrightarrow>
            closed (chans s ! a) \<or> a \<in> snd ` set (clusterControllers s)"
    by blast
  have sn: "since s s' = Log Stopping # map Close ?as" by (rule since_append [OF s'(3)])
  have "closed (chans s' ! a) \<and> Close a \<in> set (since s s')"
    if "map_of (clusterControllers s) k = Some a" for k a
  proof -
    from that have "a \<in> snd ` set (clusterControllers s)" by (force dest: map_of_SomeD)
    with s'(5,6) show ?thesis by (simp add: sn)
  qed
  moreover have "distinct (since s s')"
    using s'(4) by (auto simp: sn distinct_map inj_on_def)
  moreover have "list_all (\<lambda>e. e = Log Stopping \<or> is_Close e) (since s s')"
    by (simp add: sn list_all_iff)
  moreover have "loop (CtxDone w # evs) s = Inr (Returned, s')" by (simp add: s'(1))
  ultimately show ?thesis using s'(1,2) by blast
qed

theorem shutdown_closes_all_witness:
  "wf_mcc s_ab \<and>
   shutdown w_ok s_ab = Inr s_ab_stopped \<and>
   loop [CtxDone w_ok, Ticker w_ok] s_ab = Inr (Returned, s_ab_stopped) \<and>
   clusterControllers s_ab_stopped = clusterControllers s_ab \<and>
   closed (chans s_ab_stopped ! 0) \<and> closed (chans s_ab_stopped ! 1) \<and>
   since s_ab s_ab_stopped = [Log Stopping, Close 0, Close 1]"
proof -
  have h: "wf_mcc s_ab" by code_simp
  have e: "shutdown w_ok s_ab = Inr s_ab_stopped" by code_simp
  have m: "map_of (clusterControllers s_ab) ''a'' = Some 0"
    "map_of (clusterControllers s_ab) ''b'' = Some 1" by (simp_all add: s_ab_def)
  have sn: "since s_ab s_ab_stopped = [Log Stopping, Close 0, Close 1]" by code_simp
  from shutdown_closes_all [OF h, of w_ok "[Ticker w_ok]"] e
  have l: "loop [CtxDone w_ok, Ticker w_ok] s_ab = Inr (Returned, s_ab_stopped)"
    and r: "clusterControllers s_ab_stopped = clusterControllers s_ab"
    and c: "\<forall>k a. map_of (clusterControllers s_ab) k = Some a \<longrightarrow>
              closed (chans s_ab_stopped ! a) \<and> Close a \<in> set (since s_ab s_ab_stopped)"
    by auto
  from c m have "closed (chans s_ab_stopped ! 0)" "closed (chans s_ab_stopped ! 1)" by blast+
  with h e l r sn show ?thesis by blast
qed

text \<open>
  C4, as stated, fails: after the cancellation with two workers both entries are still
  in the map.
\<close>

theorem shutdown_keeps_entries:
  "shutdown w_ok s_ab = Inr s_ab_stopped \<and>
   clusterControllers s_ab_stopped = [(''a'', 0), (''b'', 1)] \<and>
   map_of (clusterControllers s_ab_stopped) ''a'' = Some 0 \<and>
   map_of (clusterControllers s_ab_stopped) ''b'' = Some 1"
  by code_simp

text \<open>
  C5. A watch event with a value other than nil for a name that is in the map makes one
  non-blocking send on the channel the map holds for it and nothing else: the map is
  unchanged, the only effect is that one send (and the log line when it is dropped), so
  no channel is made, no worker started and the factory not called, and the channel
  differs only by the one notification it may have gained.
\<close>

theorem watch_update_tracked:
  assumes "wf_mcc s" and "map_of (clusterControllers s) name = Some ch" and "v \<noteq> None"
  shows "\<exists>s'. watch_step w name v s = Inr s' \<and>
           assetsDir s' = assetsDir s \<and>
           clusterControllers s' = clusterControllers s \<and>
           chans s' =
             (if buffered (chans s ! ch) < capacity (chans s ! ch)
              then (chans s)[ch := (chans s ! ch)\<lparr>buffered := Suc (buffered (chans s ! ch))\<rparr>]
              else chans s) \<and>
           effects s' = effects s @
             (if buffered (chans s ! ch) < capacity (chans s ! ch)
              then [Send ch True] else [Send ch False, Log (BufferFull name)]) \<and>
           wf_mcc s' \<and>
           loop (WatchResp w name v # evs) s = loop evs s'"
proof -
  from assms(3) obtain bs where v: "v = Some bs" by auto
  have step: "watch_step w name (Some bs) s = try_send name ch s"
    using assms(2) by (simp add: watch_step_def)
  show ?thesis
  proof (cases "buffered (chans s ! ch) < capacity (chans s ! ch)")
    case True
    with wf_mcc_buffered [OF assms(1,2)] show ?thesis
      by (simp add: v step try_send_tracked [OF assms(1,2)])
  next
    case False
    with assms(1) show ?thesis
      by (simp add: v step try_send_tracked [OF assms(1,2)])
  qed
qed

theorem watch_update_tracked_witness:
  "wf_mcc s_a \<and> map_of (clusterControllers s_a) ''a'' = Some 0 \<and> Some ''x'' \<noteq> None \<and>
   (\<exists>s'. watch_step w_ok ''a'' (Some ''x'') s_a = Inr s' \<and>
      clusterControllers s' = [(''a'', 0)] \<and> chans s' = [open_chan 1] \<and>
      effects s' = [Send 0 True])"
proof -
  have h: "wf_mcc s_a" "map_of (clusterControllers s_a) ''a'' = Some 0"
    by (simp_all add: wf_mcc_def s_a_def open_chan_def clusterControllerNotificationBuffer_def)
  show ?thesis
    using h watch_update_tracked [OF h, of "Some ''x''" w_ok "[]"]
    by (auto simp: s_a_def open_chan_def)
qed

text \<open>
  C6. A watch event with the nil value for a name that is in the map closes the channel
  the map holds for it and deletes the entry; the close is the only effect (no send),
  and every other entry of the map is as it was.
\<close>

theorem watch_delete_tracked:
  assumes "wf_mcc s" and "map_of (clusterControllers s) name = Some ch"
  shows "\<exists>s'. watch_step w name None s = Inr s' \<and>
           assetsDir s' = assetsDir s \<and>
           clusterControllers s' = AList.delete name (clusterControllers s) \<and>
           map_of (clusterControllers s') = (map_of (clusterControllers s))(name := None) \<and>
           chans s' = (chans s)[ch := (chans s ! ch)\<lparr>closed := True\<rparr>] \<and>
           closed (chans s' ! ch) \<and>
           effects s' = effects s @ [Close ch] \<and>
           wf_mcc s' \<and>
           loop (WatchResp w name None # evs) s = loop evs s'"
proof -
  have "watch_step w name None s =
          Inr (emit [Close ch]
                (s\<lparr>chans := (chans s)[ch := (chans s ! ch)\<lparr>closed := True\<rparr>],
                   clusterControllers := AList.delete name (clusterControllers s)\<rparr>))"
    using assms(2) by (simp add: watch_step_def close_chan_tracked [OF assms] emit_def)
  then show ?thesis
    using wf_mcc_close_delete [OF assms] wf_mccD [OF assms]
    by (simp add: AList.delete_conv')
qed

theorem watch_delete_tracked_witness:
  "wf_mcc s_ab \<and> map_of (clusterControllers s_ab) ''a'' = Some 0 \<and>
   (\<exists>s'. watch_step w_ok ''a'' None s_ab = Inr s' \<and>
      clusterControllers s' = [(''b'', 1)] \<and>
      chans s' = [\<lparr>buffered = 0, capacity = 10, closed = True\<rparr>, open_chan 4] \<and>
      effects s' = [Close 0])"
proof -
  have h: "wf_mcc s_ab" "map_of (clusterControllers s_ab) ''a'' = Some 0"
    by (simp_all add: wf_mcc_def s_ab_def open_chan_def clusterControllerNotificationBuffer_def)
  show ?thesis
    using h watch_delete_tracked [OF h, of w_ok "[]"]
    by (auto simp: s_ab_def open_chan_def)
qed

text \<open>
  C7. In a tick whose snapshot fetch succeeds, the factory is called for every defined
  name that has no entry (its \<^verbatim>\<open>MkdirAll\<close> is among the tick's effects), whatever it
  answered for the others; such a name has no entry after the tick exactly when its own
  factory call failed, and then the failure is logged. The entries of names still
  defined are kept, those of names no longer defined are closed and deleted, every entry
  left is sent one notification, and the tick ends without a panic, the loop going on
  to the next event.
\<close>

theorem tick_factory_failure_isolated:
  assumes "inv_mcc s" and "GetAll w = Inr defs"
  shows "\<exists>s'. tick_step w s = Inr s' \<and> inv_mcc s' \<and>
           loop (Ticker w # evs) s = loop evs s' \<and>
           (\<forall>k c. map_of defs k = Some c \<longrightarrow> map_of (clusterControllers s) k = None \<longrightarrow>
                  MkdirAll (ForCluster (assetsDir s) k) perm_0700 \<in> set (since s s') \<and>
                  (map_of (clusterControllers s') k = None
                     \<longleftrightarrow> isl (fst (newClusterController w k c s))) \<and>
                  (\<forall>err. fst (newClusterController w k c s) = Inl err \<longrightarrow>
                     Log (CreateError k err) \<in> set (since s s'))) \<and>
           (\<forall>k a. map_of (clusterControllers s) k = Some a \<longrightarrow> map_of defs k \<noteq> None \<longrightarrow>
                  map_of (clusterControllers s') k = Some a) \<and>
           (\<forall>k a. map_of (clusterControllers s) k = Some a \<longrightarrow> map_of defs k = None \<longrightarrow>
                  map_of (clusterControllers s') k = None \<and> Close a \<in> set (since s s')) \<and>
           (\<forall>k a. map_of (clusterControllers s') k = Some a \<longrightarrow>
                  Send a True \<in> set (since s s') \<or> Send a False \<in> set (since s s'))"
proof -
  let ?s0 = "emit [Log TickLine] s"
  obtain s1 s2 s' where
    t: "tick_step w s = Inr s'"
       "s1 = ensure_workers w defs (range_keys (rangeRank w 0) defs) ?s0"
       "grows ?s0 s1"
       "closes s1 s2"
       "clusterControllers s2 = filter (\<lambda>(k, a). map_of defs k \<noteq> None) (clusterControllers s1)"
       "\<forall>k a. map_of (clusterControllers s1) k = Some a \<longrightarrow> map_of defs k = None \<longrightarrow>
           Close a \<in> set (since s1 s2) \<and> closed (chans s2 ! a)"
       "inv_mcc s'" "pokes s2 s'"
       "\<forall>k a. map_of (clusterControllers s2) k = Some a \<longrightarrow>
           Send a True \<in> set (since s2 s') \<or> Send a False \<in> set (since s2 s')"
    by (rule tick_step_props [OF assms])
  have i0: "inv_mcc ?s0" by (rule inv_mcc_emit [OF assms(1)]) simp
  have reg2: "map_of (clusterControllers s2) k
      = (if map_of defs k \<noteq> None then map_of (clusterControllers s1) k else None)" for k
    by (simp add: t(5) map_of_filter_keys)
  from t(8) have reg': "clusterControllers s' = clusterControllers s2" by (simp add: pokes_def)
  have sn: "since s s' = Log TickLine # since ?s0 s1 @ since s1 s2 @ since s2 s'"
    by (rule tick_since [OF t(3,4,8)])
  have new: "MkdirAll (ForCluster (assetsDir s) k) perm_0700 \<in> set (since s s') \<and>
             (map_of (clusterControllers s') k = None
                \<longleftrightarrow> isl (fst (newClusterController w k c s))) \<and>
             (\<forall>err. fst (newClusterController w k c s) = Inl err \<longrightarrow>
                Log (CreateError k err) \<in> set (since s s'))"
    if d: "map_of defs k = Some c" and n: "map_of (clusterControllers s) k = None" for k c
  proof -
    from d have "k \<in> fst ` set defs" by (force dest: map_of_SomeD)
    then have kin: "k \<in> set (range_keys (rangeRank w 0) defs)" by simp
    from n have n0: "map_of (clusterControllers ?s0) k = None" by simp
    from ensure_workers_attempts [OF i0 kin d n0, of w]
    have "MkdirAll (ForCluster (assetsDir s) k) perm_0700 \<in> set (since ?s0 s1)"
      and "map_of (clusterControllers s1) k = None \<longleftrightarrow> isl (fst (newClusterController w k c s))"
      and "\<forall>err. fst (newClusterController w k c s) = Inl err \<longrightarrow>
             Log (CreateError k err) \<in> set (since ?s0 s1)"
      by (simp_all add: t(2) fst_newClusterController_emit)
    with d show ?thesis by (simp add: sn reg' reg2)
  qed
  have kept: "map_of (clusterControllers s') k = Some a"
    if "map_of (clusterControllers s) k = Some a" "map_of defs k \<noteq> None" for k a
  proof -
    from t(3) that(1) have "map_of (clusterControllers s1) k = Some a" by (simp add: grows_def)
    with that(2) show ?thesis by (simp add: reg' reg2)
  qed
  have stale: "map_of (clusterControllers s') k = None \<and> Close a \<in> set (since s s')"
    if "map_of (clusterControllers s) k = Some a" "map_of defs k = None" for k a
  proof -
    from t(3) that(1) have "map_of (clusterControllers s1) k = Some a" by (simp add: grows_def)
    with t(6) that(2) have "Close a \<in> set (since s1 s2)" by simp
    with that(2) show ?thesis by (simp add: reg' reg2 sn)
  qed
  have swept: "Send a True \<in> set (since s s') \<or> Send a False \<in> set (since s s')"
    if "map_of (clusterControllers s') k = Some a" for k a
  proof -
    from that t(9) have "Send a True \<in> set (since s2 s') \<or> Send a False \<in> set (since s2 s')"
      by (simp add: reg')
    then show ?thesis by (auto simp: sn)
  qed
  have "loop (Ticker w # evs) s = loop evs s'" by (simp add: t(1))
  with t(1,7) new kept stale swept show ?thesis by blast
qed

theorem tick_factory_failure_isolated_witness:
  "inv_mcc s_a \<and>
   GetAll w_bc = Inr [(''c'', \<lparr>Spec = ''z''\<rparr>), (''b'', \<lparr>Spec = ''y''\<rparr>)] \<and>
   fst (newClusterController w_bc ''c'' \<lparr>Spec = ''z''\<rparr> s_a)
     = Inl ''error creating executor: no executor'' \<and>
   tick_step w_bc s_a = Inr s_a_ticked \<and>
   loop [Ticker w_bc] s_a = Inr (Waiting, s_a_ticked) \<and>
   MkdirAll ''r/c'' perm_0700 \<in> set (since s_a s_a_ticked) \<and>
   Log (CreateError ''c'' ''error creating executor: no executor'')
     \<in> set (since s_a s_a_ticked) \<and>
   map_of (clusterControllers s_a_ticked) ''c'' = None \<and>
   MkdirAll ''r/b'' perm_0700 \<in> set (since s_a s_a_ticked) \<and>
   map_of (clusterControllers s_a_ticked) ''b'' = Some 1 \<and>
   map_of (clusterControllers s_a_ticked) ''a'' = None \<and>
   Close 0 \<in> set (since s_a s_a_ticked) \<and>
   Send 1 True \<in> set (since s_a s_a_ticked)"
proof -
  have h1: "inv_mcc s_a" by code_simp
  have h2: "GetAll w_bc = Inr [(''c'', \<lparr>Spec = ''z''\<rparr>), (''b'', \<lparr>Spec = ''y''\<rparr>)]"
    by (simp add: w_bc_def)
  have e: "tick_step w_bc s_a = Inr s_a_ticked" by code_simp
  have f: "fst (newClusterController w_bc ''c'' \<lparr>Spec = ''z''\<rparr> s_a)
     = Inl ''error creating executor: no executor''" by code_simp
  have d: "ForCluster (assetsDir s_a) ''c'' = ''r/c''"
    "ForCluster (assetsDir s_a) ''b'' = ''r/b''" by code_simp+
  have m: "map_of [(''c'', \<lparr>Spec = ''z''\<rparr>), (''b'', \<lparr>Spec = ''y''\<rparr>)] ''c'' = Some \<lparr>Spec = ''z''\<rparr>"
    "map_of [(''c'', \<lparr>Spec = ''z''\<rparr>), (''b'', \<lparr>Spec = ''y''\<rparr>)] ''b'' = Some \<lparr>Spec = ''y''\<rparr>"
    "map_of [(''c'', \<lparr>Spec = ''z''\<rparr>), (''b'', \<lparr>Spec = ''y''\<rparr>)] ''a'' = None"
    "map_of (clusterControllers s_a) ''c'' = None"
    "map_of (clusterControllers s_a) ''b'' = None"
    "map_of (clusterControllers s_a) ''a'' = Some 0"
    by (simp_all add: s_a_def)
  have b: "map_of (clusterControllers s_a_ticked) ''b'' = Some 1" by (simp add: s_a_ticked_def)
  from tick_factory_failure_isolated [OF h1 h2, of "[]"] e
  have l: "loop [Ticker w_bc] s_a = Inr (Waiting, s_a_ticked)"
    and new: "\<forall>k c. map_of [(''c'', \<lparr>Spec = ''z''\<rparr>), (''b'', \<lparr>Spec = ''y''\<rparr>)] k = Some c \<longrightarrow>
           map_of (clusterControllers s_a) k = None \<longrightarrow>
           MkdirAll (ForCluster (assetsDir s_a) k) perm_0700 \<in> set (since s_a s_a_ticked) \<and>
           (map_of (clusterControllers s_a_ticked) k = None
              \<longleftrightarrow> isl (fst (newClusterController w_bc k c s_a))) \<and>
           (\<forall>err. fst (newClusterController w_bc k c s_a) = Inl err \<longrightarrow>
              Log (CreateError k err) \<in> set (since s_a s_a_ticked))"
    and stale: "\<forall>k a. map_of (clusterControllers s_a) k = Some a \<longrightarrow>
           map_of [(''c'', \<lparr>Spec = ''z''\<rparr>), (''b'', \<lparr>Spec = ''y''\<rparr>)] k = None \<longrightarrow>
           map_of (clusterControllers s_a_ticked) k = None \<and> Close a \<in> set (since s_a s_a_ticked)"
    and swept: "\<forall>k a. map_of (clusterControllers s_a_ticked) k = Some a \<longrightarrow>
           Send a True \<in> set (since s_a s_a_ticked) \<or> Send a False \<in> set (since s_a s_a_ticked)"
    by auto
  from new m(1,4) d(1) f
  have c: "MkdirAll ''r/c'' perm_0700 \<in> set (since s_a s_a_ticked)"
    "map_of (clusterControllers s_a_ticked) ''c'' = None"
    "Log (CreateError ''c'' ''error creating executor: no executor'') \<in> set (since s_a s_a_ticked)"
    by (metis, metis sum.disc(1), metis)
  from new m(2,5) d(2)
  have b': "MkdirAll ''r/b'' perm_0700 \<in> set (since s_a s_a_ticked)" by metis
  from stale m(3,6)
  have a: "map_of (clusterControllers s_a_ticked) ''a'' = None" "Close 0 \<in> set (since s_a s_a_ticked)"
    by blast+
  from swept b have "Send 1 True \<in> set (since s_a s_a_ticked) \<or> Send 1 False \<in> set (since s_a s_a_ticked)"
    by blast
  moreover have "Send 1 False \<notin> set (since s_a s_a_ticked)" by code_simp
  ultimately have sw: "Send 1 True \<in> set (since s_a s_a_ticked)" by blast
  from h1 h2 f e l c b' b a sw show ?thesis by blast
qed

text \<open>
  C8. The factory (a) makes the cluster's directory: the root, a separator and the
  cluster's name, so one directory for each name and under the root, with the permission
  \<^verbatim>\<open>0700\<close>, that is 448, which has all three bits of the owner and none of the group
  or of the others; (b) creates the log file, whose path is \<^verbatim>\<open>filepath.Join\<close> of that
  directory and \<^verbatim>\<open>kismatic.log\<close>: the elements of the directory followed by
  \<^verbatim>\<open>kismatic.log\<close>; (c) asks for the executor with the name, the directory and the file.
  The effects the factory adds are exactly its steps up to the first that fails, in
  this order; a failing step gives its own error with its prefix and no worker. The
  factory never changes the root, the map or the channels, and when it fails for a watch
  event the loop adds the log line and nothing else.
\<close>

theorem newClusterController_steps:
  "perm_0700 = 448 \<and> and perm_0700 63 = 0 \<and> and perm_0700 448 = 448 \<and>
   ForCluster (assetsDir s) name = assetsDir s @ ''/'' @ name \<and>
   (ForCluster (assetsDir s) name = ForCluster (assetsDir s) name') = (name = name') \<and>
   filepath_Join (ForCluster (assetsDir s) name) ''kismatic.log'' =
     (if path_rooted (ForCluster (assetsDir s) name) then ''/'' else []) @
     join_elements (path_elements (ForCluster (assetsDir s) name) @ [''kismatic.log'']) \<and>
   (os_MkdirAll w (ForCluster (assetsDir s) name) 448 = Some e1 \<longrightarrow>
      fst (newClusterController w name cluster s)
        = Inl (''error creating assets directory: '' @ e1) \<and>
      effects (snd (newClusterController w name cluster s))
        = effects s @ [MkdirAll (ForCluster (assetsDir s) name) 448]) \<and>
   (os_MkdirAll w (ForCluster (assetsDir s) name) 448 = None \<and>
    os_Create w (filepath_Join (ForCluster (assetsDir s) name) ''kismatic.log'') = Inl e2 \<longrightarrow>
      fst (newClusterController w name cluster s) = Inl (''error creating log file: '' @ e2) \<and>
      effects (snd (newClusterController w name cluster s))
        = effects s @
          [MkdirAll (ForCluster (assetsDir s) name) 448,
           Create (filepath_Join (ForCluster (assetsDir s) name) ''kismatic.log'')]) \<and>
   (os_MkdirAll w (ForCluster (assetsDir s) name) 448 = None \<and>
    os_Create w (filepath_Join (ForCluster (assetsDir s) name) ''kismatic.log'') = Inr f \<and>
    newExecutor w name (ForCluster (assetsDir s) name) f = Inl e3 \<longrightarrow>
      fst (newClusterController w name cluster s) = Inl (''error creating executor: '' @ e3) \<and>
      effects (snd (newClusterController w name cluster s))
        = effects s @
          [MkdirAll (ForCluster (assetsDir s) name) 448,
           Create (filepath_Join (ForCluster (assetsDir s) name) ''kismatic.log''),
           NewExecutor name (ForCluster (assetsDir s) name) f]) \<and>
   (os_MkdirAll w (ForCluster (assetsDir s) name) 448 = None \<and>
    os_Create w (filepath_Join (ForCluster (assetsDir s) name) ''kismatic.log'') = Inr f \<and>
    newExecutor w name (ForCluster (assetsDir s) name) f = Inr ex \<longrightarrow>
      fst (newClusterController w name cluster s)
        = Inr \<lparr>clusterName = name, clusterSpec = Spec cluster,
               clusterAssetsDir = ForCluster (assetsDir s) name, logFile = f, executor = ex\<rparr> \<and>
      effects (snd (newClusterController w name cluster s))
        = effects s @
          [MkdirAll (ForCluster (assetsDir s) name) 448,
           Create (filepath_Join (ForCluster (assetsDir s) name) ''kismatic.log''),
           NewExecutor name (ForCluster (assetsDir s) name) f]) \<and>
   assetsDir (snd (newClusterController w name cluster s)) = assetsDir s \<and>
   clusterControllers (snd (newClusterController w name cluster s)) = clusterControllers s \<and>
   chans (snd (newClusterController w name cluster s)) = chans s \<and>
   (map_of (clusterControllers s) name = None \<and> json_Unmarshal w v = Inr cluster \<and>
    fst (newClusterController w name cluster s) = Inl e \<longrightarrow>
      (\<exists>s'. watch_step w name v s = Inr s' \<and>
         clusterControllers s' = clusterControllers s \<and> chans s' = chans s \<and>
         effects s' = effects (snd (newClusterController w name cluster s))
                        @ [Log (CreateError name e)]))"
proof -
  have p: "perm_0700 = 448" "and perm_0700 63 = 0" "and perm_0700 448 = 448"
    by (rule perm_0700_bits)+
  have l1: "ForCluster (assetsDir s) name = assetsDir s @ ''/'' @ name"
    by (simp add: ForCluster_def)
  have l2: "(ForCluster (assetsDir s) name = ForCluster (assetsDir s) name') = (name = name')"
    by (rule ForCluster_inj)
  have l3: "filepath_Join (ForCluster (assetsDir s) name) ''kismatic.log'' =
     (if path_rooted (ForCluster (assetsDir s) name) then ''/'' else []) @
     join_elements (path_elements (ForCluster (assetsDir s) name) @ [''kismatic.log''])"
    by (rule filepath_Join_log) simp
  have a: "os_MkdirAll w (ForCluster (assetsDir s) name) 448 = Some e1 \<longrightarrow>
      fst (newClusterController w name cluster s)
        = Inl (''error creating assets directory: '' @ e1) \<and>
      effects (snd (newClusterController w name cluster s))
        = effects s @ [MkdirAll (ForCluster (assetsDir s) name) 448]"
    by (simp add: newClusterController_def Let_def p(1))
  have b: "os_MkdirAll w (ForCluster (assetsDir s) name) 448 = None \<and>
    os_Create w (filepath_Join (ForCluster (assetsDir s) name) ''kismatic.log'') = Inl e2 \<longrightarrow>
      fst (newClusterController w name cluster s) = Inl (''error creating log file: '' @ e2) \<and>
      effects (snd (newClusterController w name cluster s))
        = effects s @
          [MkdirAll (ForCluster (assetsDir s) name) 448,
           Create (filepath_Join (ForCluster (assetsDir s) name) ''kismatic.log'')]"
    by (simp add: newClusterController_def Let_def p(1))
  have c: "os_MkdirAll w (ForCluster (assetsDir s) name) 448 = None \<and>
    os_Create w (filepath_Join (ForCluster (assetsDir s) name) ''kismatic.log'') = Inr f \<and>
    newExecutor w name (ForCluster (assetsDir s) name) f = Inl e3 \<longrightarrow>
      fst (newClusterController w name cluster s) = Inl (''error creating executor: '' @ e3) \<and>
      effects (snd (newClusterController w name cluster s))
        = effects s @
          [MkdirAll (ForCluster (assetsDir s) name) 448,
           Create (filepath_Join (ForCluster (assetsDir s) name) ''kismatic.log''),
           NewExecutor name (ForCluster (assetsDir s) name) f]"
    by (simp add: newClusterController_def Let_def p(1))
  have d: "os_MkdirAll w (ForCluster (assetsDir s) name) 448 = None \<and>
    os_Create w (filepath_Join (ForCluster (assetsDir s) name) ''kismatic.log'') = Inr f \<and>
    newExecutor w name (ForCluster (assetsDir s) name) f = Inr ex \<longrightarrow>
      fst (newClusterController w name cluster s)
        = Inr \<lparr>clusterName = name, clusterSpec = Spec cluster,
               clusterAssetsDir = ForCluster (assetsDir s) name, logFile = f, executor = ex\<rparr> \<and>
      effects (snd (newClusterController w name cluster s))
        = effects s @
          [MkdirAll (ForCluster (assetsDir s) name) 448,
           Create (filepath_Join (ForCluster (assetsDir s) name) ''kismatic.log''),
           NewExecutor name (ForCluster (assetsDir s) name) f]"
    by (simp add: newClusterController_def Let_def p(1))
  have fr: "assetsDir (snd (newClusterController w name cluster s)) = assetsDir s"
    "clusterControllers (snd (newClusterController w name cluster s)) = clusterControllers s"
    "chans (snd (newClusterController w name cluster s)) = chans s"
    by (simp_all add: newClusterController_def Let_def split: option.splits sum.splits)
  have w: "map_of (clusterControllers s) name = None \<and> json_Unmarshal w v = Inr cluster \<and>
    fst (newClusterController w name cluster s) = Inl e \<longrightarrow>
      (\<exists>s'. watch_step w name v s = Inr s' \<and>
         clusterControllers s' = clusterControllers s \<and> chans s' = chans s \<and>
         effects s' = effects (snd (newClusterController w name cluster s))
                        @ [Log (CreateError name e)])"
    using fr(2,3) by (auto simp: watch_step_factory_fails)
  from p l1 l2 l3 a b c d fr w show ?thesis by blast
qed

theorem newClusterController_steps_witness:
  "ForCluster (assetsDir s_empty) ''a'' = ''r/a'' \<and>
   filepath_Join ''r/a'' ''kismatic.log'' = ''r/a/kismatic.log'' \<and>
   os_MkdirAll w_nodir ''r/a'' 448 = Some ''read-only'' \<and>
   os_MkdirAll w_nofile ''r/a'' 448 = None \<and>
   os_Create w_nofile ''r/a/kismatic.log'' = Inl ''denied'' \<and>
   os_MkdirAll w_noexec ''r/a'' 448 = None \<and>
   os_Create w_noexec ''r/a/kismatic.log'' = Inr 3 \<and>
   newExecutor w_noexec ''a'' ''r/a'' 3 = Inl ''no executor'' \<and>
   os_MkdirAll w_ok ''r/a'' 448 = None \<and>
   os_Create w_ok ''r/a/kismatic.log'' = Inr 3 \<and>
   newExecutor w_ok ''a'' ''r/a'' 3 = Inr 7 \<and>
   fst (newClusterController w_nodir ''a'' \<lparr>Spec = ''x''\<rparr> s_empty)
     = Inl ''error creating assets directory: read-only'' \<and>
   effects (snd (newClusterController w_nodir ''a'' \<lparr>Spec = ''x''\<rparr> s_empty))
     = [MkdirAll ''r/a'' 448] \<and>
   fst (newClusterController w_nofile ''a'' \<lparr>Spec = ''x''\<rparr> s_empty)
     = Inl ''error creating log file: denied'' \<and>
   effects (snd (newClusterController w_nofile ''a'' \<lparr>Spec = ''x''\<rparr> s_empty))
     = [MkdirAll ''r/a'' 448, Create ''r/a/kismatic.log''] \<and>
   fst (newClusterController w_noexec ''a'' \<lparr>Spec = ''x''\<rparr> s_empty)
     = Inl ''error creating executor: no executor'' \<and>
   effects (snd (newClusterController w_noexec ''a'' \<lparr>Spec = ''x''\<rparr> s_empty))
     = [MkdirAll ''r/a'' 448, Create ''r/a/kismatic.log'', NewExecutor ''a'' ''r/a'' 3] \<and>
   fst (newClusterController w_ok ''a'' \<lparr>Spec = ''x''\<rparr> s_empty) = Inr cc_a \<and>
   effects (snd (newClusterController w_ok ''a'' \<lparr>Spec = ''x''\<rparr> s_empty))
     = [MkdirAll ''r/a'' 448, Create ''r/a/kismatic.log'', NewExecutor ''a'' ''r/a'' 3] \<and>
   map_of (clusterControllers s_empty) ''a'' = None \<and>
   json_Unmarshal w_nodir (Some ''x'') = Inr \<lparr>Spec = ''x''\<rparr> \<and>
   (\<exists>s'. watch_step w_nodir ''a'' (Some ''x'') s_empty = Inr s' \<and>
      clusterControllers s' = [] \<and> chans s' = [] \<and>
      effects s' =
        [MkdirAll ''r/a'' 448,
         Log (CreateError ''a'' ''error creating assets directory: read-only'')])"
proof -
  let ?c = "\<lparr>Spec = ''x''\<rparr>"
  have dir: "ForCluster (assetsDir s_empty) ''a'' = ''r/a''"
    and s0: "effects s_empty = []" "clusterControllers s_empty = []" "chans s_empty = []"
    by code_simp+
  have h1: "os_MkdirAll w_nodir (ForCluster (assetsDir s_empty) ''a'') 448 = Some ''read-only''"
    by (simp add: w_nodir_def)
  have h2: "os_MkdirAll w_nofile (ForCluster (assetsDir s_empty) ''a'') 448 = None \<and>
    os_Create w_nofile (filepath_Join (ForCluster (assetsDir s_empty) ''a'') ''kismatic.log'')
      = Inl ''denied''"
    by (simp add: w_nofile_def w_ok_def)
  have h3: "os_MkdirAll w_noexec (ForCluster (assetsDir s_empty) ''a'') 448 = None \<and>
    os_Create w_noexec (filepath_Join (ForCluster (assetsDir s_empty) ''a'') ''kismatic.log'')
      = Inr 3 \<and>
    newExecutor w_noexec ''a'' (ForCluster (assetsDir s_empty) ''a'') 3 = Inl ''no executor''"
    by (simp add: w_noexec_def w_ok_def)
  have h4: "os_MkdirAll w_ok (ForCluster (assetsDir s_empty) ''a'') 448 = None \<and>
    os_Create w_ok (filepath_Join (ForCluster (assetsDir s_empty) ''a'') ''kismatic.log'')
      = Inr 3 \<and>
    newExecutor w_ok ''a'' (ForCluster (assetsDir s_empty) ''a'') 3 = Inr 7"
    by (simp add: w_ok_def)
  have h5: "map_of (clusterControllers s_empty) ''a'' = None"
    "json_Unmarshal w_nodir (Some ''x'') = Inr ?c"
    by (simp_all add: s_empty_def json_Unmarshal_def w_nodir_def w_ok_def)
  note t1 = newClusterController_steps [of s_empty "''a''" "''a''" w_nodir "''read-only''" ?c
      "''_''" 3 "''_''" 7 "Some ''x''" "''error creating assets directory: read-only''"]
  note t2 = newClusterController_steps [of s_empty "''a''" "''a''" w_nofile "''_''" ?c
      "''denied''" 3 "''_''" 7 "Some ''x''" "''_''"]
  note t3 = newClusterController_steps [of s_empty "''a''" "''a''" w_noexec "''_''" ?c
      "''_''" 3 "''no executor''" 7 "Some ''x''" "''_''"]
  note t4 = newClusterController_steps [of s_empty "''a''" "''a''" w_ok "''_''" ?c
      "''_''" 3 "''_''" 7 "Some ''x''" "''_''"]
  have logp2: "filepath_Join ''r/a'' ''kismatic.log'' = ''r/a/kismatic.log''" by code_simp
  from t1 h1 have "fst (newClusterController w_nodir ''a'' ?c s_empty)
        = Inl (''error creating assets directory: '' @ ''read-only'') \<and>
      effects (snd (newClusterController w_nodir ''a'' ?c s_empty))
        = effects s_empty @ [MkdirAll (ForCluster (assetsDir s_empty) ''a'') 448]"
    by blast
  then have r1: "fst (newClusterController w_nodir ''a'' ?c s_empty)
        = Inl ''error creating assets directory: read-only''"
    "effects (snd (newClusterController w_nodir ''a'' ?c s_empty)) = [MkdirAll ''r/a'' 448]"
    by (simp_all add: dir s0)
  from t2 h2 have "fst (newClusterController w_nofile ''a'' ?c s_empty)
        = Inl (''error creating log file: '' @ ''denied'') \<and>
      effects (snd (newClusterController w_nofile ''a'' ?c s_empty))
        = effects s_empty @
          [MkdirAll (ForCluster (assetsDir s_empty) ''a'') 448,
           Create (filepath_Join (ForCluster (assetsDir s_empty) ''a'') ''kismatic.log'')]"
    by blast
  then have r2: "fst (newClusterController w_nofile ''a'' ?c s_empty)
        = Inl ''error creating log file: denied''"
    "effects (snd (newClusterController w_nofile ''a'' ?c s_empty))
       = [MkdirAll ''r/a'' 448, Create ''r/a/kismatic.log'']"
    by (simp_all add: dir logp2 s0)
  from t3 h3 have "fst (newClusterController w_noexec ''a'' ?c s_empty)
        = Inl (''error creating executor: '' @ ''no executor'') \<and>
      effects (snd (newClusterController w_noexec ''a'' ?c s_empty))
        = effects s_empty @
          [MkdirAll (ForCluster (assetsDir s_empty) ''a'') 448,
           Create (filepath_Join (ForCluster (assetsDir s_empty) ''a'') ''kismatic.log''),
           NewExecutor ''a'' (ForCluster (assetsDir s_empty) ''a'') 3]"
    by blast
  then have r3: "fst (newClusterController w_noexec ''a'' ?c s_empty)
        = Inl ''error creating executor: no executor''"
    "effects (snd (newClusterController w_noexec ''a'' ?c s_empty))
       = [MkdirAll ''r/a'' 448, Create ''r/a/kismatic.log'', NewExecutor ''a'' ''r/a'' 3]"
    by (simp_all add: dir logp2 s0)
  from t4 h4 have "fst (newClusterController w_ok ''a'' ?c s_empty)
        = Inr \<lparr>clusterName = ''a'', clusterSpec = Spec ?c,
               clusterAssetsDir = ForCluster (assetsDir s_empty) ''a'', logFile = 3,
               executor = 7\<rparr> \<and>
      effects (snd (newClusterController w_ok ''a'' ?c s_empty))
        = effects s_empty @
          [MkdirAll (ForCluster (assetsDir s_empty) ''a'') 448,
           Create (filepath_Join (ForCluster (assetsDir s_empty) ''a'') ''kismatic.log''),
           NewExecutor ''a'' (ForCluster (assetsDir s_empty) ''a'') 3]"
    by blast
  then have r4: "fst (newClusterController w_ok ''a'' ?c s_empty) = Inr cc_a"
    "effects (snd (newClusterController w_ok ''a'' ?c s_empty))
       = [MkdirAll ''r/a'' 448, Create ''r/a/kismatic.log'', NewExecutor ''a'' ''r/a'' 3]"
    by (simp_all add: dir logp2 s0 cc_a_def)
  from r1(1) have f1: "fst (newClusterController w_nodir ''a'' ?c s_empty)
        = Inl ''error creating assets directory: read-only''" .
  from t1 h5 f1 have "\<exists>s'. watch_step w_nodir ''a'' (Some ''x'') s_empty = Inr s' \<and>
      clusterControllers s' = clusterControllers s_empty \<and> chans s' = chans s_empty \<and>
      effects s' = effects (snd (newClusterController w_nodir ''a'' ?c s_empty))
                     @ [Log (CreateError ''a'' ''error creating assets directory: read-only'')]"
    by blast
  then have r5: "\<exists>s'. watch_step w_nodir ''a'' (Some ''x'') s_empty = Inr s' \<and>
      clusterControllers s' = [] \<and> chans s' = [] \<and>
      effects s' =
        [MkdirAll ''r/a'' 448,
         Log (CreateError ''a'' ''error creating assets directory: read-only'')]"
    by (simp add: s0 r1(2))
  have g: "os_MkdirAll w_nodir ''r/a'' 448 = Some ''read-only''"
    "os_MkdirAll w_nofile ''r/a'' 448 = None"
    "os_Create w_nofile ''r/a/kismatic.log'' = Inl ''denied''"
    "os_MkdirAll w_noexec ''r/a'' 448 = None"
    "os_Create w_noexec ''r/a/kismatic.log'' = Inr 3"
    "newExecutor w_noexec ''a'' ''r/a'' 3 = Inl ''no executor''"
    "os_MkdirAll w_ok ''r/a'' 448 = None"
    "os_Create w_ok ''r/a/kismatic.log'' = Inr 3"
    "newExecutor w_ok ''a'' ''r/a'' 3 = Inr 7"
    by (simp_all add: w_nodir_def w_nofile_def w_noexec_def w_ok_def)
  from dir logp2 g r1 r2 r3 r4 h5 r5 show ?thesis by blast
qed

text \<open>
  C9. The buffer constant is 10 and a worker's channel is made empty and open with that
  capacity. A send never blocks: on a registered channel that already holds 10
  notifications it is dropped, the drop is logged, and the state is otherwise as it was
  (map and channels unchanged), the loop going on to the next event. Eleven updates of
  a registered cluster whose channel starts empty and is not read fill the channel with
  ten notifications and drop the eleventh.
\<close>

theorem notification_buffer:
  "clusterControllerNotificationBuffer = 10 \<and>
   chans (snd (start_worker name' cc s0)) ! fst (start_worker name' cc s0)
     = \<lparr>buffered = 0, capacity = 10, closed = False\<rparr> \<and>
   (wf_mcc s \<and> map_of (clusterControllers s) name = Some ch \<and> buffered (chans s ! ch) = 10 \<longrightarrow>
      try_send name ch s = Inr (emit [Send ch False, Log (BufferFull name)] s) \<and>
      watch_step w name (Some bs) s = Inr (emit [Send ch False, Log (BufferFull name)] s) \<and>
      loop (WatchResp w name (Some bs) # evs) s
        = loop evs (emit [Send ch False, Log (BufferFull name)] s)) \<and>
   (wf_mcc s \<and> map_of (clusterControllers s) name = Some ch \<and> buffered (chans s ! ch) = 0 \<longrightarrow>
      loop (replicate 11 (WatchResp w name (Some bs)) @ evs) s
        = loop evs
            (emit (replicate 10 (Send ch True) @ [Send ch False, Log (BufferFull name)])
               (s\<lparr>chans := (chans s)[ch := (chans s ! ch)\<lparr>buffered := 10\<rparr>]\<rparr>)))"
proof (intro conjI impI)
  show "clusterControllerNotificationBuffer = 10"
    by (simp add: clusterControllerNotificationBuffer_def)
  show "chans (snd (start_worker name' cc s0)) ! fst (start_worker name' cc s0)
     = \<lparr>buffered = 0, capacity = 10, closed = False\<rparr>"
    by (simp add: start_worker_eq clusterControllerNotificationBuffer_def)
next
  assume h: "wf_mcc s \<and> map_of (clusterControllers s) name = Some ch \<and> buffered (chans s ! ch) = 10"
  then have wf: "wf_mcc s" and tr: "map_of (clusterControllers s) name = Some ch" by simp_all
  from wf_mccD [OF wf tr] h
  show full: "try_send name ch s = Inr (emit [Send ch False, Log (BufferFull name)] s)"
    by (simp add: try_send_tracked [OF wf tr] clusterControllerNotificationBuffer_def)
  then show w1: "watch_step w name (Some bs) s = Inr (emit [Send ch False, Log (BufferFull name)] s)"
    by (simp add: watch_step_tracked [OF tr])
  then show "loop (WatchResp w name (Some bs) # evs) s
        = loop evs (emit [Send ch False, Log (BufferFull name)] s)"
    by simp
next
  assume h: "wf_mcc s \<and> map_of (clusterControllers s) name = Some ch \<and> buffered (chans s ! ch) = 0"
  then have wf: "wf_mcc s" and tr: "map_of (clusterControllers s) name = Some ch"
    and b: "buffered (chans s ! ch) = 0" by simp_all
  let ?ev = "WatchResp w name (Some bs)"
  let ?s10 = "emit (replicate 10 (Send ch True))
           (s\<lparr>chans := (chans s)[ch := (chans s ! ch)\<lparr>buffered := 10\<rparr>]\<rparr>)"
  from wf_mccD [OF wf tr] have lt: "ch < length (chans s)"
    and cap: "capacity (chans s ! ch) = 10" and op: "\<not> closed (chans s ! ch)"
    by (simp_all add: clusterControllerNotificationBuffer_def)
  have "replicate 11 ?ev @ evs = replicate 10 ?ev @ (?ev # evs)"
    by (simp add: eval_nat_numeral)
  then have "loop (replicate 11 ?ev @ evs) s = loop (?ev # evs) ?s10"
    using watch_fill [OF wf tr, of 10 w bs "?ev # evs"] b
    by (simp add: clusterControllerNotificationBuffer_def)
  moreover have "watch_step w name (Some bs) ?s10 =
                 Inr (emit [Send ch False, Log (BufferFull name)] ?s10)"
    using tr lt cap op by (simp add: watch_step_tracked [of _ _ ch] try_send_def)
  ultimately show "loop (replicate 11 ?ev @ evs) s
        = loop evs
            (emit (replicate 10 (Send ch True) @ [Send ch False, Log (BufferFull name)])
               (s\<lparr>chans := (chans s)[ch := (chans s ! ch)\<lparr>buffered := 10\<rparr>]\<rparr>))"
    by (simp add: emit_emit)
qed

theorem notification_buffer_witness:
  "wf_mcc s_full \<and> map_of (clusterControllers s_full) ''a'' = Some 0 \<and>
   buffered (chans s_full ! 0) = 10 \<and>
   watch_step w_ok ''a'' (Some ''x'') s_full
     = Inr (emit [Send 0 False, Log (BufferFull ''a'')] s_full) \<and>
   wf_mcc s_a \<and> map_of (clusterControllers s_a) ''a'' = Some 0 \<and>
   buffered (chans s_a ! 0) = 0 \<and>
   loop (replicate 11 (WatchResp w_ok ''a'' (Some ''x''))) s_a
     = Inr (Waiting,
         \<lparr>assetsDir = ''r'', clusterControllers = [(''a'', 0)], chans = [open_chan 10],
          effects = replicate 10 (Send 0 True) @ [Send 0 False, Log (BufferFull ''a'')]\<rparr>)"
proof -
  have h: "wf_mcc s_full \<and> map_of (clusterControllers s_full) ''a'' = Some 0 \<and>
           buffered (chans s_full ! 0) = 10"
    by (simp add: wf_mcc_def s_full_def open_chan_def clusterControllerNotificationBuffer_def)
  have k: "wf_mcc s_a \<and> map_of (clusterControllers s_a) ''a'' = Some 0 \<and>
           buffered (chans s_a ! 0) = 0"
    by (simp add: wf_mcc_def s_a_def open_chan_def clusterControllerNotificationBuffer_def)
  from h notification_buffer [of "''a''" cc_a s_a s_full "''a''" 0 w_ok "''x''" "[]"]
  have a: "watch_step w_ok ''a'' (Some ''x'') s_full
     = Inr (emit [Send 0 False, Log (BufferFull ''a'')] s_full)"
    by blast
  from k notification_buffer [of "''a''" cc_a s_a s_a "''a''" 0 w_ok "''x''" "[]"]
  have "loop (replicate 11 (WatchResp w_ok ''a'' (Some ''x'')) @ []) s_a
        = loop []
            (emit (replicate 10 (Send 0 True) @ [Send 0 False, Log (BufferFull ''a'')])
               (s_a\<lparr>chans := (chans s_a)[0 := (chans s_a ! 0)\<lparr>buffered := 10\<rparr>]\<rparr>))"
    by blast
  then have b: "loop (replicate 11 (WatchResp w_ok ''a'' (Some ''x''))) s_a
     = Inr (Waiting,
         \<lparr>assetsDir = ''r'', clusterControllers = [(''a'', 0)], chans = [open_chan 10],
          effects = replicate 10 (Send 0 True) @ [Send 0 False, Log (BufferFull ''a'')]\<rparr>)"
    by (simp add: s_a_def open_chan_def emit_def)
  from h k a b show ?thesis by blast
qed

text \<open>
  C10. A watch event with the nil value for a name that is not in the map takes the
  creation path: decoding the nil value fails, the decode error is logged, and the state
  is otherwise unchanged (the map and the channels are as before; nothing is made,
  started, closed or sent).
\<close>

theorem watch_nil_untracked:
  assumes "map_of (clusterControllers s) name = None"
  shows "json_Unmarshal w None = Inl ''unexpected end of JSON input'' \<and>
         watch_step w name None s =
           Inr (emit [Log (UnmarshalError name ''unexpected end of JSON input'')] s) \<and>
         clusterControllers (emit [Log (UnmarshalError name ''unexpected end of JSON input'')] s)
           = clusterControllers s \<and>
         chans (emit [Log (UnmarshalError name ''unexpected end of JSON input'')] s) = chans s"
  using assms by (simp add: watch_step_def json_Unmarshal_def)

theorem watch_nil_untracked_witness:
  "map_of (clusterControllers s_a) ''b'' = None \<and>
   watch_step w_ok ''b'' None s_a =
     Inr (emit [Log (UnmarshalError ''b'' ''unexpected end of JSON input'')] s_a)"
  using watch_nil_untracked [of s_a "''b''" w_ok]
  by (simp add: s_a_def)

end
